theory Spec2Isabelle
  imports Complex_Main
begin

section \<open>Geo-grid issue cache (IssueCacheService.ts)\<close>

text \<open>
  Numbers are JavaScript doubles in the source; they are modelled as exact reals, so
  rounding, NaN and the infinities are outside the model. Integer identifiers are
  naturals. The backing store is the list of issue rows in the order in which the
  database returns them; the source never asks for an ordering. Record fields keep the
  names of the source; where two records of the source share a field name, or a name is
  taken by a constant of the logic, the field carries a prefix.
\<close>

text \<open>A row of the issue table together with the two relation counts that every
  query of the service selects. Latitude and longitude are nullable columns (the source
  reads them with \<open>?? 0\<close>). The creation time is kept as a number (milliseconds).\<close>

record IssueRow =
  row_id :: nat
  row_title :: string
  row_status :: string
  row_issueType :: string
  row_latitude :: "real option"
  row_longitude :: "real option"
  row_createdAt :: int
  row_upvotes :: nat
  row_comments :: nat

text \<open>The interface \<open>IssueSummary\<close>. The field \<open>id\<close> is called \<open>ident\<close> here;
  \<open>createdAt\<close> stands for the ISO rendering of the row's creation time.\<close>

record IssueSummary =
  ident :: nat
  title :: string
  status :: string
  issueType :: string
  latitude :: real
  longitude :: real
  voteCount :: nat
  commentCount :: nat
  createdAt :: int

definition GRID_CELL_SIZE :: real where
  "GRID_CELL_SIZE = 1 / 100"

text \<open>A grid cell key \<open>issues:grid:<lat>:<lng>\<close> is represented by the pair of integers
  that the template string prints and that \<open>split\<close> and \<open>parseInt\<close> read back.\<close>

type_synonym cellKey = "int \<times> int"

definition getGridCellKey :: "real \<Rightarrow> real \<Rightarrow> cellKey" where
  "getGridCellKey lat lng = (\<lfloor>lat / GRID_CELL_SIZE\<rfloor>, \<lfloor>lng / GRID_CELL_SIZE\<rfloor>)"

definition getGridCellsForBounds :: "real \<Rightarrow> real \<Rightarrow> real \<Rightarrow> real \<Rightarrow> cellKey list" where
  "getGridCellsForBounds minLat maxLat minLng maxLng =
     (let startLat = \<lfloor>minLat / GRID_CELL_SIZE\<rfloor>;
          endLat = \<lfloor>maxLat / GRID_CELL_SIZE\<rfloor>;
          startLng = \<lfloor>minLng / GRID_CELL_SIZE\<rfloor>;
          endLng = \<lfloor>maxLng / GRID_CELL_SIZE\<rfloor>
      in concat (map (\<lambda>lat. map (\<lambda>lng. (lat, lng)) [startLng..endLng]) [startLat..endLat]))"

text \<open>The Redis keyspace: the cell keys hold lists of issue ids, the keys
  \<open>issue:summary:<id>\<close> hold summaries (JSON encoding and decoding cancel). Expiry is not
  modelled: an entry stays until it is overwritten.\<close>

record Redis =
  cells :: "cellKey \<rightharpoonup> nat list"
  summaries :: "nat \<rightharpoonup> IssueSummary"

text \<open>Every access to Redis and to the database is recorded, in order.\<close>

datatype effect =
    RedisGetCell cellKey
  | RedisSetCell cellKey
  | RedisGetSummary nat
  | RedisSetSummary nat
  | DbFindManyCell cellKey
  | DbFindManyBounds
  | DbFindUnique nat

record World =
  redis :: Redis
  trace :: "effect list"

definition emit :: "effect \<Rightarrow> World \<Rightarrow> World" where
  "emit e w = w\<lparr>trace := trace w @ [e]\<rparr>"

definition cacheIssueSummary :: "IssueSummary \<Rightarrow> World \<Rightarrow> World" where
  "cacheIssueSummary issue w =
     emit (RedisSetSummary (ident issue))
       (w\<lparr>redis := (redis w)\<lparr>summaries := (summaries (redis w))(ident issue \<mapsto> issue)\<rparr>\<rparr>)"

definition getCachedIssueSummary :: "nat \<Rightarrow> World \<Rightarrow> IssueSummary option \<times> World" where
  "getCachedIssueSummary issueId w = (summaries (redis w) issueId, emit (RedisGetSummary issueId) w)"

definition cacheGridCell :: "cellKey \<Rightarrow> nat list \<Rightarrow> World \<Rightarrow> World" where
  "cacheGridCell cellKey issueIds w =
     emit (RedisSetCell cellKey)
       (w\<lparr>redis := (redis w)\<lparr>cells := (cells (redis w))(cellKey \<mapsto> issueIds)\<rparr>\<rparr>)"

definition getCachedGridCell :: "cellKey \<Rightarrow> World \<Rightarrow> nat list option \<times> World" where
  "getCachedGridCell cellKey w = (cells (redis w) cellKey, emit (RedisGetCell cellKey) w)"

text \<open>The object literal that turns a selected row into a summary.\<close>

definition toSummary :: "IssueRow \<Rightarrow> IssueSummary" where
  "toSummary issue =
     \<lparr>ident = row_id issue, title = row_title issue, status = row_status issue,
      issueType = row_issueType issue,
      latitude = (case row_latitude issue of None \<Rightarrow> 0 | Some v \<Rightarrow> v),
      longitude = (case row_longitude issue of None \<Rightarrow> 0 | Some v \<Rightarrow> v),
      voteCount = row_upvotes issue, commentCount = row_comments issue,
      createdAt = row_createdAt issue\<rparr>"

text \<open>The \<open>where\<close> clauses. A comparison with a null column matches no row.\<close>

definition statusFilter :: "bool \<Rightarrow> IssueRow \<Rightarrow> bool" where
  "statusFilter includeResolved r = (includeResolved \<or> row_status r \<noteq> ''RESOLVED'')"

definition inCell :: "real \<Rightarrow> real \<Rightarrow> bool \<Rightarrow> IssueRow \<Rightarrow> bool" where
  "inCell cellLat cellLng includeResolved r =
     (case (row_latitude r, row_longitude r) of
        (Some la, Some lo) \<Rightarrow>
          cellLat \<le> la \<and> la < cellLat + GRID_CELL_SIZE \<and>
          cellLng \<le> lo \<and> lo < cellLng + GRID_CELL_SIZE \<and>
          statusFilter includeResolved r
      | _ \<Rightarrow> False)"

definition inBounds :: "real \<Rightarrow> real \<Rightarrow> real \<Rightarrow> real \<Rightarrow> bool \<Rightarrow> IssueRow \<Rightarrow> bool" where
  "inBounds minLat maxLat minLng maxLng includeResolved r =
     (case (row_latitude r, row_longitude r) of
        (Some la, Some lo) \<Rightarrow>
          minLat \<le> la \<and> la \<le> maxLat \<and> minLng \<le> lo \<and> lo \<le> maxLng \<and>
          statusFilter includeResolved r
      | _ \<Rightarrow> False)"

text \<open>\<open>fetchIssuesFromDb\<close> of \<open>IssueCacheService.ts\<close>: one range query with \<open>take: 500\<close> and no
  \<open>orderBy\<close>, so the rows come in the order of the store.\<close>

definition fetchIssuesFromDb ::
  "IssueRow list \<Rightarrow> real \<Rightarrow> real \<Rightarrow> real \<Rightarrow> real \<Rightarrow> bool \<Rightarrow> World \<Rightarrow> IssueSummary list \<times> World" where
  "fetchIssuesFromDb db minLat maxLat minLng maxLng includeResolved w =
     (map toSummary (take 500 (filter (inBounds minLat maxLat minLng maxLng includeResolved) db)),
      emit DbFindManyBounds w)"

text \<open>The \<open>Set<number>\<close> of issue ids keeps insertion order.\<close>

definition setAdd :: "nat list \<Rightarrow> nat \<Rightarrow> nat list" where
  "setAdd s x = (if x \<in> set s then s else s @ [x])"

text \<open>First loop of \<open>getIssuesInBounds\<close>: which cells are cached. The state is the id set,
  the list of uncached cells and the world.\<close>

fun checkCells :: "cellKey list \<Rightarrow> nat list \<times> cellKey list \<times> World \<Rightarrow> nat list \<times> cellKey list \<times> World" where
  "checkCells [] st = st"
| "checkCells (cell # rest) (allIssueIds, uncachedCells, w) =
     (case getCachedGridCell cell w of
        (Some cachedIds, w') \<Rightarrow> checkCells rest (fold (\<lambda>i s. setAdd s i) cachedIds allIssueIds, uncachedCells, w')
      | (None, w') \<Rightarrow> checkCells rest (allIssueIds, uncachedCells @ [cell], w'))"

text \<open>Inner loop of the second loop: cache each summary of a fetched cell and add its id.\<close>

fun cacheCellIssues :: "IssueRow list \<Rightarrow> nat list \<times> World \<Rightarrow> nat list \<times> World" where
  "cacheCellIssues [] st = st"
| "cacheCellIssues (issue # rest) (allIssueIds, w) =
     cacheCellIssues rest (setAdd allIssueIds (row_id issue), cacheIssueSummary (toSummary issue) w)"

text \<open>Second loop: fetch every uncached cell from the database and cache it.\<close>

fun fetchCells :: "IssueRow list \<Rightarrow> bool \<Rightarrow> cellKey list \<Rightarrow> nat list \<times> World \<Rightarrow> nat list \<times> World" where
  "fetchCells db includeResolved [] st = st"
| "fetchCells db includeResolved (cellKey # rest) (allIssueIds, w) =
     (let cellLat = real_of_int (fst cellKey) * GRID_CELL_SIZE;
          cellLng = real_of_int (snd cellKey) * GRID_CELL_SIZE;
          cellIssues = filter (inCell cellLat cellLng includeResolved) db;
          w1 = emit (DbFindManyCell cellKey) w;
          issueIds = map row_id cellIssues;
          w2 = cacheGridCell cellKey issueIds w1
      in fetchCells db includeResolved rest (cacheCellIssues cellIssues (allIssueIds, w2)))"

text \<open>\<open>findUnique\<close> by id.\<close>

definition findUnique :: "IssueRow list \<Rightarrow> nat \<Rightarrow> IssueRow option" where
  "findUnique db i = find (\<lambda>r. row_id r = i) db"

text \<open>Third loop: resolve every id to a summary and apply the final filter.\<close>

fun collectSummaries ::
  "IssueRow list \<Rightarrow> real \<Rightarrow> real \<Rightarrow> real \<Rightarrow> real \<Rightarrow> bool \<Rightarrow> nat list \<Rightarrow> IssueSummary list \<times> World
     \<Rightarrow> IssueSummary list \<times> World" where
  "collectSummaries db minLat maxLat minLng maxLng includeResolved [] st = st"
| "collectSummaries db minLat maxLat minLng maxLng includeResolved (i # rest) (results, w) =
     (let (cached, w1) = getCachedIssueSummary i w;
          (summary, w2) =
             (case cached of
                Some s \<Rightarrow> (Some s, w1)
              | None \<Rightarrow>
                  (case findUnique db i of
                     Some issue \<Rightarrow> (Some (toSummary issue), cacheIssueSummary (toSummary issue) (emit (DbFindUnique i) w1))
                   | None \<Rightarrow> (None, emit (DbFindUnique i) w1)))
      in collectSummaries db minLat maxLat minLng maxLng includeResolved rest
           (case summary of
              None \<Rightarrow> (results, w2)
            | Some s \<Rightarrow>
                if \<not> includeResolved \<and> status s = ''RESOLVED'' then (results, w2)
                else if latitude s \<ge> minLat \<and> latitude s \<le> maxLat \<and>
                        longitude s \<ge> minLng \<and> longitude s \<le> maxLng
                then (results @ [s], w2)
                else (results, w2)))"

definition getIssuesInBounds ::
  "IssueRow list \<Rightarrow> real \<Rightarrow> real \<Rightarrow> real \<Rightarrow> real \<Rightarrow> bool \<Rightarrow> World \<Rightarrow> IssueSummary list \<times> World" where
  "getIssuesInBounds db minLat maxLat minLng maxLng includeResolved w =
     (let cells = getGridCellsForBounds minLat maxLat minLng maxLng
      in if length cells > 100
         then fetchIssuesFromDb db minLat maxLat minLng maxLng includeResolved w
         else
           (let (allIssueIds, uncachedCells, w1) = checkCells cells ([], [], w);
                (allIssueIds2, w2) = fetchCells db includeResolved uncachedCells (allIssueIds, w1)
            in collectSummaries db minLat maxLat minLng maxLng includeResolved allIssueIds2 ([], w2)))"

text \<open>A world with an empty cache and an empty trace.\<close>

definition coldWorld :: World where
  "coldWorld = \<lparr>redis = \<lparr>cells = Map.empty, summaries = Map.empty\<rparr>, trace = []\<rparr>"

text \<open>Sample data used by the concrete evaluations below.\<close>

definition sampleIssue :: "nat \<Rightarrow> IssueRow" where
  "sampleIssue i =
     \<lparr>row_id = i, row_title = ''pothole'', row_status = ''OPEN'', row_issueType = ''ROAD'',
      row_latitude = Some 0, row_longitude = Some 0, row_createdAt = int i,
      row_upvotes = 0, row_comments = 0\<rparr>"

definition manyIssues :: "IssueRow list" where
  "manyIssues = map sampleIssue [0..<501]"

definition resolvedIssue :: IssueRow where
  "resolvedIssue =
     \<lparr>row_id = 7, row_title = ''pothole'', row_status = ''RESOLVED'', row_issueType = ''ROAD'',
      row_latitude = Some 0, row_longitude = Some 0, row_createdAt = 1,
      row_upvotes = 3, row_comments = 1\<rparr>"

subsection \<open>Cell lists\<close>

lemma length_getGridCellsForBounds:
  "length (getGridCellsForBounds minLat maxLat minLng maxLng) =
     nat (\<lfloor>maxLat / GRID_CELL_SIZE\<rfloor> - \<lfloor>minLat / GRID_CELL_SIZE\<rfloor> + 1) *
     nat (\<lfloor>maxLng / GRID_CELL_SIZE\<rfloor> - \<lfloor>minLng / GRID_CELL_SIZE\<rfloor> + 1)"
  by (simp add: getGridCellsForBounds_def Let_def length_concat comp_def sum_list_triv)

lemma cells_inverted:
  assumes "\<lfloor>minLat / GRID_CELL_SIZE\<rfloor> > \<lfloor>maxLat / GRID_CELL_SIZE\<rfloor> \<or>
           \<lfloor>minLng / GRID_CELL_SIZE\<rfloor> > \<lfloor>maxLng / GRID_CELL_SIZE\<rfloor>"
  shows "getGridCellsForBounds minLat maxLat minLng maxLng = []"
  using assms by (auto simp: getGridCellsForBounds_def Let_def)

lemma cells150: "length (getGridCellsForBounds 0 (29/200) 0 (19/200)) = 150"
  by (simp add: length_getGridCellsForBounds GRID_CELL_SIZE_def)

subsection \<open>Inverted bounding boxes\<close>

text \<open>
  Claim C10. When the bounding box is inverted after cell rounding (the cell index of
  \<open>minLat\<close> exceeds that of \<open>maxLat\<close>, or likewise for the longitudes), the cell list is
  empty and \<open>getIssuesInBounds\<close> returns the empty list and leaves the world as it was:
  the trace gains no entry (no database query, no cache read or write) and Redis is
  unchanged.
\<close>

theorem inverted_bounds_return_nothing:
  assumes "\<lfloor>minLat / GRID_CELL_SIZE\<rfloor> > \<lfloor>maxLat / GRID_CELL_SIZE\<rfloor> \<or>
           \<lfloor>minLng / GRID_CELL_SIZE\<rfloor> > \<lfloor>maxLng / GRID_CELL_SIZE\<rfloor>"
  shows "getGridCellsForBounds minLat maxLat minLng maxLng = [] \<and>
         getIssuesInBounds db minLat maxLat minLng maxLng includeResolved w = ([], w)"
  using cells_inverted[OF assms] by (simp add: getIssuesInBounds_def)

theorem inverted_bounds_return_nothing_witness:
  "getGridCellsForBounds 2 1 0 5 = [] \<and>
   getIssuesInBounds [resolvedIssue] 2 1 0 5 True coldWorld = ([], coldWorld)"
  using inverted_bounds_return_nothing[where minLat=2 and maxLat=1 and minLng=0 and maxLng=5
      and db="[resolvedIssue]" and includeResolved=True and w=coldWorld]
  by (simp add: GRID_CELL_SIZE_def)

subsection \<open>Oversized bounding boxes\<close>

text \<open>
  When the bounding box covers more than 100 cells, \<open>getIssuesInBounds\<close> touches Redis
  neither for reading nor for writing and issues exactly one range query; the result holds
  at most 500 summaries, the first 500 matching rows in the order in which the store
  returns them.
\<close>

lemma oversized_box_bypasses_cache:
  assumes "length (getGridCellsForBounds minLat maxLat minLng maxLng) > 100"
  shows "getIssuesInBounds db minLat maxLat minLng maxLng includeResolved w =
           (map toSummary (take 500 (filter (inBounds minLat maxLat minLng maxLng includeResolved) db)),
            w\<lparr>trace := trace w @ [DbFindManyBounds]\<rparr>)
         \<and> length (fst (getIssuesInBounds db minLat maxLat minLng maxLng includeResolved w)) \<le> 500"
  using assms by (simp add: getIssuesInBounds_def fetchIssuesFromDb_def emit_def)

lemma oversized_box_150_cells:
  "100 < length (getGridCellsForBounds 0 (29/200) 0 (19/200)) \<and>
   getIssuesInBounds [sampleIssue 3] 0 (29/200) 0 (19/200) False coldWorld =
     ([toSummary (sampleIssue 3)], coldWorld\<lparr>trace := [DbFindManyBounds]\<rparr>)"
  using oversized_box_bypasses_cache[where minLat=0 and maxLat="29/200" and minLng=0
      and maxLng="19/200" and db="[sampleIssue 3]" and includeResolved=False and w=coldWorld]
  by (simp add: cells150 coldWorld_def inBounds_def statusFilter_def sampleIssue_def)

lemma filter_manyIssues:
  "filter (inBounds 0 (21/200) 0 (19/200) True) manyIssues = manyIssues"
  by (simp add: manyIssues_def inBounds_def sampleIssue_def statusFilter_def)

text \<open>
  Claim C7 at a concrete store: 501 matching issues, stored in creation order, and a box
  of 110 cells. The call bypasses the cache (Redis is untouched, the trace holds the one
  range query) and returns 500 summaries, but they are the 500 oldest issues: the query
  of \<open>fetchIssuesFromDb\<close> has \<open>take: 500\<close> and no \<open>orderBy\<close>, so the most recent issue
  is left out, where the claim asks for the 500 most recent by creation time.
\<close>

theorem oversized_box_not_most_recent:
  "100 < length (getGridCellsForBounds 0 (21/200) 0 (19/200)) \<and>
   snd (getIssuesInBounds manyIssues 0 (21/200) 0 (19/200) True coldWorld)
     = coldWorld\<lparr>trace := [DbFindManyBounds]\<rparr> \<and>
   map createdAt (fst (getIssuesInBounds manyIssues 0 (21/200) 0 (19/200) True coldWorld))
     = map int [0..<500] \<and>
   inBounds 0 (21/200) 0 (19/200) True (sampleIssue 500) \<and>
   sampleIssue 500 \<in> set manyIssues \<and>
   row_createdAt (sampleIssue 500) = 500"
proof -
  have c: "length (getGridCellsForBounds 0 (21/200) 0 (19/200)) = 110"
    by (simp add: length_getGridCellsForBounds GRID_CELL_SIZE_def)
  have t: "take 500 manyIssues = map sampleIssue [0..<500]"
    by (simp add: manyIssues_def take_map)
  have r: "fst (getIssuesInBounds manyIssues 0 (21/200) 0 (19/200) True coldWorld) =
        map toSummary (map sampleIssue [0..<500])"
    by (simp add: getIssuesInBounds_def c fetchIssuesFromDb_def filter_manyIssues t)
  have w: "snd (getIssuesInBounds manyIssues 0 (21/200) 0 (19/200) True coldWorld)
        = coldWorld\<lparr>trace := [DbFindManyBounds]\<rparr>"
    by (simp add: getIssuesInBounds_def c fetchIssuesFromDb_def emit_def coldWorld_def)
  have m: "sampleIssue 500 \<in> set manyIssues"
    by (simp add: manyIssues_def)
  show ?thesis
    by (simp add: c r w m comp_def toSummary_def) (simp add: sampleIssue_def inBounds_def statusFilter_def)
qed

subsection \<open>Cold and warm cells\<close>

text \<open>
  Claim C1 at a concrete store: one resolved issue at the origin, queried with the box
  that is the origin alone. On a cold cache the call with \<open>includeResolved\<close> returns the
  issue. After a call without \<open>includeResolved\<close> has cached the cell's id list (which is
  empty, since the query that filled it excluded resolved issues), the same call with
  \<open>includeResolved\<close> returns nothing.
\<close>

theorem warm_differs_from_cold:
  "fst (getIssuesInBounds [resolvedIssue] 0 0 0 0 True coldWorld) = [toSummary resolvedIssue] \<and>
   fst (getIssuesInBounds [resolvedIssue] 0 0 0 0 True
          (snd (getIssuesInBounds [resolvedIssue] 0 0 0 0 False coldWorld))) = []"
  by (simp add: getIssuesInBounds_def getGridCellsForBounds_def GRID_CELL_SIZE_def coldWorld_def
      getCachedGridCell_def emit_def inCell_def statusFilter_def resolvedIssue_def cacheGridCell_def
      cacheIssueSummary_def toSummary_def setAdd_def getCachedIssueSummary_def findUnique_def)

section \<open>Great-circle distance (turf.distance)\<close>

text \<open>
  Both the importer and the pathfinder measure distances with \<open>turf.distance\<close> in
  meters: the haversine formula on a sphere of radius 6371008.8 m, with angles reduced by
  JavaScript's remainder (\<open>degrees % 360\<close>, which truncates towards zero) before the
  conversion to radians, and \<open>atan2\<close> as in \<open>Math.atan2\<close>. Points are (longitude, latitude).
\<close>

definition earthRadius :: real where
  "earthRadius = 63710088 / 10"

definition jsRem360 :: "real \<Rightarrow> real" where
  "jsRem360 d = d - 360 * (if d \<ge> 0 then of_int \<lfloor>d / 360\<rfloor> else of_int \<lceil>d / 360\<rceil>)"

definition degreesToRadians :: "real \<Rightarrow> real" where
  "degreesToRadians degrees = jsRem360 degrees * pi / 180"

definition atan2 :: "real \<Rightarrow> real \<Rightarrow> real" where
  "atan2 y x =
     (if x > 0 then arctan (y / x)
      else if x < 0 then (if y \<ge> 0 then arctan (y / x) + pi else arctan (y / x) - pi)
      else if y > 0 then pi / 2
      else if y < 0 then - (pi / 2)
      else 0)"

definition turfDistance :: "real \<times> real \<Rightarrow> real \<times> real \<Rightarrow> real" where
  "turfDistance from to =
     (let dLat = degreesToRadians (snd to - snd from);
          dLon = degreesToRadians (fst to - fst from);
          lat1 = degreesToRadians (snd from);
          lat2 = degreesToRadians (snd to);
          a = (sin (dLat / 2))\<^sup>2 + (sin (dLon / 2))\<^sup>2 * cos lat1 * cos lat2
      in 2 * atan2 (sqrt a) (sqrt (1 - a)) * earthRadius)"

definition heuristic :: "real \<Rightarrow> real \<Rightarrow> real \<Rightarrow> real \<Rightarrow> real" where
  "heuristic lat1 lon1 lat2 lon2 = turfDistance (lon1, lat1) (lon2, lat2)"

lemma jsRem360_small: "\<bar>d\<bar> < 360 \<Longrightarrow> jsRem360 d = d"
proof -
  assume a: "\<bar>d\<bar> < 360"
  show ?thesis
  proof (cases "d \<ge> 0")
    case True
    then have "\<lfloor>d / 360\<rfloor> = 0" using a by (simp add: floor_eq_iff)
    then show ?thesis using True by (simp add: jsRem360_def)
  next
    case False
    then have "\<lceil>d / 360\<rceil> = 0" using a by (simp add: ceiling_eq_iff)
    then show ?thesis using False by (simp add: jsRem360_def)
  qed
qed

lemma heuristic_same: "heuristic lat lon lat lon = 0"
  by (simp add: heuristic_def turfDistance_def degreesToRadians_def jsRem360_def atan2_def)

lemma heuristic_equator:
  assumes "\<bar>y - x\<bar> < 180"
  shows "heuristic 0 x 0 y = earthRadius * \<bar>y - x\<bar> * pi / 180"
proof -
  define d where "d = (y - x) * pi / 180"
  have r: "degreesToRadians (y - x) = d"
    using assms by (simp add: degreesToRadians_def jsRem360_small d_def)
  have z: "degreesToRadians 0 = 0" by (simp add: degreesToRadians_def jsRem360_def)
  have dh: "\<bar>d / 2\<bar> < pi / 2"
  proof -
    have "\<bar>d\<bar> = \<bar>y - x\<bar> * pi / 180" by (simp add: d_def abs_mult)
    also have "\<dots> < 180 * pi / 180" using assms by (simp add: divide_strict_right_mono)
    finally show ?thesis by simp
  qed
  then have c: "cos (d / 2) > 0" by (simp add: cos_gt_zero_pi abs_less_iff)
  have "1 - (sin (d / 2))\<^sup>2 = (cos (d / 2))\<^sup>2"
    by (simp add: cos_squared_eq)
  then have s2: "sqrt (1 - (sin (d / 2))\<^sup>2) = cos (d / 2)" using c by simp
  have sg: "\<bar>sin (d / 2)\<bar> = sin \<bar>d / 2\<bar>"
  proof (cases "d \<ge> 0")
    case True
    then have "0 \<le> sin (d / 2)" using dh by (intro sin_ge_zero) auto
    then show ?thesis using True by simp
  next
    case False
    then have "0 \<le> sin (- (d / 2))" using dh by (intro sin_ge_zero) auto
    then show ?thesis using False by simp
  qed
  have ca: "cos \<bar>d / 2\<bar> = cos (d / 2)"
    by (cases "d \<ge> 0") (simp_all add: abs_if)
  have t: "\<bar>sin (d / 2)\<bar> / cos (d / 2) = tan \<bar>d / 2\<bar>"
    unfolding sg tan_def ca ..
  have at: "arctan (tan \<bar>d / 2\<bar>) = \<bar>d / 2\<bar>"
    using dh by (intro arctan_tan) auto
  have "heuristic 0 x 0 y = 2 * atan2 \<bar>sin (d / 2)\<bar> (cos (d / 2)) * earthRadius"
    by (simp add: heuristic_def turfDistance_def r z s2)
  also have "atan2 \<bar>sin (d / 2)\<bar> (cos (d / 2)) = arctan (\<bar>sin (d / 2)\<bar> / cos (d / 2))"
    using c by (simp only: atan2_def if_True)
  also have "\<dots> = \<bar>d / 2\<bar>"
    by (simp only: t at)
  finally have "heuristic 0 x 0 y = 2 * \<bar>d / 2\<bar> * earthRadius" .
  then show ?thesis
    by (simp add: d_def abs_mult)
qed



section \<open>Graph store\<close>

text \<open>The tables \<open>GraphNode\<close> and \<open>GraphEdge\<close> of the migration. The text column \<open>osmId\<close> holds
  the decimal rendering of the OSM id and is kept as the number.\<close>

record GraphNode =
  gn_id :: string
  gn_osmId :: nat
  gn_latitude :: real
  gn_longitude :: real

record GraphEdge =
  ge_id :: string
  startNodeId :: string
  endNodeId :: string
  distance :: real
  baseCost :: real
  penalty :: real

record GraphDb =
  graphNode :: "GraphNode list"
  graphEdge :: "GraphEdge list"


section \<open>Graph import (importGraph.ts)\<close>

text \<open>
  The answer of the Overpass request: \<open>axios.post\<close> either rejects (network error, timeout
  after 60 s, error status) or delivers the list of elements. An element is a node with
  id, latitude and longitude, a way with id and node ids, or anything else.
\<close>

datatype OSMElement = OSMNode nat real real | OSMWay nat "nat list" | OSMOther

datatype axiosResponse = AxiosError | AxiosOk "OSMElement list"

datatype importError = IngestionFailure

text \<open>\<open>fetchOSMData\<close> separates the elements into a map of the nodes by id and the list of
  the ways (their node ids); a failed request is the failure of the import.\<close>

type_synonym osmData = "(nat \<rightharpoonup> real \<times> real) \<times> nat list list"

fun separate :: "OSMElement list \<Rightarrow> osmData \<Rightarrow> osmData" where
  "separate [] acc = acc"
| "separate (OSMNode i la lo # rest) (nodes, ways) = separate rest (nodes(i \<mapsto> (la, lo)), ways)"
| "separate (OSMWay i ns # rest) (nodes, ways) = separate rest (nodes, ways @ [ns])"
| "separate (OSMOther # rest) acc = separate rest acc"

definition fetchOSMData :: "axiosResponse \<Rightarrow> importError + osmData" where
  "fetchOSMData response =
     (case response of
        AxiosError \<Rightarrow> Inl IngestionFailure
      | AxiosOk elements \<Rightarrow> Inr (separate elements (Map.empty, [])))"

definition calculateDistance :: "real \<Rightarrow> real \<Rightarrow> real \<Rightarrow> real \<Rightarrow> real" where
  "calculateDistance lat1 lon1 lat2 lon2 = turfDistance (lon1, lat1) (lon2, lat2)"

text \<open>\<open>createMany\<close> with \<open>skipDuplicates\<close>: a row whose unique \<open>osmId\<close> is already in the
  table is skipped. Primary keys are drawn from the generator \<open>uuid\<close>, whose next index is
  threaded through.\<close>

fun createManyNodes ::
  "(nat \<Rightarrow> string) \<Rightarrow> (nat \<times> real \<times> real) list \<Rightarrow> GraphNode list \<times> nat \<Rightarrow> GraphNode list \<times> nat" where
  "createManyNodes uuid [] st = st"
| "createManyNodes uuid ((osm, la, lo) # rest) (table, k) =
     (if osm \<in> gn_osmId ` set table then createManyNodes uuid rest (table, k)
      else createManyNodes uuid rest
             (table @ [\<lparr>gn_id = uuid k, gn_osmId = osm, gn_latitude = la, gn_longitude = lo\<rparr>], Suc k))"

text \<open>Edge rows have no unique key besides the generated id; \<open>penalty\<close> takes its column
  default 1.0.\<close>

fun createManyEdges ::
  "(nat \<Rightarrow> string) \<Rightarrow> (string \<times> string \<times> real) list \<Rightarrow> GraphEdge list \<times> nat \<Rightarrow> GraphEdge list \<times> nat" where
  "createManyEdges uuid [] st = st"
| "createManyEdges uuid ((a, b, d) # rest) (table, k) =
     createManyEdges uuid rest
       (table @ [\<lparr>ge_id = uuid k, startNodeId = a, endNodeId = b, distance = d, baseCost = d, penalty = 1\<rparr>],
        Suc k)"

text \<open>The edges of one way: for every pair of consecutive node ids whose OSM nodes and
  database ids are all known (a string is truthy when it is not empty), one edge in each
  direction.\<close>

definition wayEdges ::
  "(nat \<rightharpoonup> real \<times> real) \<Rightarrow> (nat \<rightharpoonup> string) \<Rightarrow> nat list \<Rightarrow> (string \<times> string \<times> real) list" where
  "wayEdges osmNodes nodeIdMap wayNodes =
     concat (map (\<lambda>(startOsmId, endOsmId).
        (case (osmNodes startOsmId, osmNodes endOsmId, nodeIdMap startOsmId, nodeIdMap endOsmId) of
           (Some (lat1, lon1), Some (lat2, lon2), Some startUuid, Some endUuid) \<Rightarrow>
             if startUuid \<noteq> [] \<and> endUuid \<noteq> []
             then (let d = calculateDistance lat1 lon1 lat2 lon2
                   in [(startUuid, endUuid, d), (endUuid, startUuid, d)])
             else []
         | _ \<Rightarrow> []))
       (zip wayNodes (tl wayNodes)))"

text \<open>\<open>importGraph\<close>: clear both tables, fetch, create the nodes that the ways use, read their
  ids back, create the edges. The result is the new store and the outcome.\<close>

definition importGraph :: "(nat \<Rightarrow> string) \<Rightarrow> GraphDb \<Rightarrow> axiosResponse \<Rightarrow> GraphDb \<times> (importError + unit)" where
  "importGraph uuid db response =
     (let db1 = db\<lparr>graphEdge := []\<rparr>;
          db2 = db1\<lparr>graphNode := []\<rparr>
      in case fetchOSMData response of
           Inl e \<Rightarrow> (db2, Inl e)
         | Inr (osmNodes, ways) \<Rightarrow>
             (let usedNodeIds = fold (\<lambda>way s. fold (\<lambda>n s. setAdd s n) way s) ways [];
                  nodesToCreate = concat (map (\<lambda>osmId.
                      case osmNodes osmId of None \<Rightarrow> [] | Some (la, lo) \<Rightarrow> [(osmId, la, lo)]) usedNodeIds);
                  (nodes, k) = createManyNodes uuid nodesToCreate (graphNode db2, 0);
                  createdNodes = filter (\<lambda>n. gn_osmId n \<in> fst ` set nodesToCreate) nodes;
                  nodeIdMap = fold (\<lambda>node m. m(gn_osmId node \<mapsto> gn_id node)) createdNodes Map.empty;
                  edgesToCreate = concat (map (wayEdges osmNodes nodeIdMap) ways);
                  (edges, k') = createManyEdges uuid edgesToCreate (graphEdge db2, k)
              in (\<lparr>graphNode = nodes, graphEdge = edges\<rparr>, Inr ())))"

text \<open>A small persisted graph and an id generator for the concrete evaluations.\<close>

definition sampleUuid :: "nat \<Rightarrow> string" where
  "sampleUuid k = CHR ''n'' # replicate k CHR ''x''"

definition storedNode :: GraphNode where
  "storedNode = \<lparr>gn_id = ''a'', gn_osmId = 1, gn_latitude = 0, gn_longitude = 0\<rparr>"

definition storedEdge :: GraphEdge where
  "storedEdge = \<lparr>ge_id = ''e'', startNodeId = ''a'', endNodeId = ''a'', distance = 0, baseCost = 0, penalty = 1\<rparr>"

definition storedGraph :: GraphDb where
  "storedGraph = \<lparr>graphNode = [storedNode], graphEdge = [storedEdge]\<rparr>"

text \<open>
  Claim C2, as the code has it. \<open>importGraph\<close> clears both tables before it fetches. When
  the fetch fails the import aborts with the failure and creates no row; the persisted
  graph is then empty, whatever it held before.
\<close>

theorem failed_fetch_leaves_empty_graph:
  "importGraph uuid db AxiosError = (\<lparr>graphNode = [], graphEdge = []\<rparr>, Inl IngestionFailure)"
  by (simp add: importGraph_def fetchOSMData_def)

text \<open>The claim as stated fails: a stored node and a stored edge are gone after an
  import whose fetch failed.\<close>

theorem failed_fetch_loses_rows:
  "storedNode \<in> set (graphNode storedGraph) \<and>
   storedEdge \<in> set (graphEdge storedGraph) \<and>
   snd (importGraph sampleUuid storedGraph AxiosError) = Inl IngestionFailure \<and>
   storedNode \<notin> set (graphNode (fst (importGraph sampleUuid storedGraph AxiosError))) \<and>
   storedEdge \<notin> set (graphEdge (fst (importGraph sampleUuid storedGraph AxiosError)))"
  by (simp add: importGraph_def fetchOSMData_def storedGraph_def)

section \<open>Pathfinder (PathfindingService.ts)\<close>

text \<open>
  The interfaces of the service. \<open>PathEdge\<close> has the fields of a stored edge and is the
  record \<open>GraphEdge\<close>; a \<open>PathNode\<close> is a stored node without its OSM id. The result of
  \<open>findPath\<close> is \<open>PathResult | null\<close>, hence an option.
\<close>

record PathNode =
  pn_id :: string
  pn_latitude :: real
  pn_longitude :: real

record QueueItem =
  nodeId :: string
  fScore :: real

record Coord =
  pt_lat :: real
  pt_lng :: real

record PathResult =
  path :: "Coord list"
  totalDistance :: real
  totalCost :: real
  estimatedTime :: real

record AdjEntry =
  adj_nodeId :: string
  adj_cost :: real
  adj_distance :: real
  adj_edgeId :: string

text \<open>\<open>select: { id, latitude, longitude }\<close>.\<close>

definition selectNode :: "GraphNode \<Rightarrow> PathNode" where
  "selectNode n = \<lparr>pn_id = gn_id n, pn_latitude = gn_latitude n, pn_longitude = gn_longitude n\<rparr>"

text \<open>The range query of \<open>findNearestNode\<close> for one radius.\<close>

definition nodesInBox :: "GraphDb \<Rightarrow> real \<Rightarrow> real \<Rightarrow> real \<Rightarrow> PathNode list" where
  "nodesInBox db lat lng radius =
     map selectNode
       (filter (\<lambda>n. lat - radius \<le> gn_latitude n \<and> gn_latitude n \<le> lat + radius \<and>
                     lng - radius \<le> gn_longitude n \<and> gn_longitude n \<le> lng + radius)
          (graphNode db))"

text \<open>The loop that keeps the closest node; \<open>minDist\<close> starts as \<open>Infinity\<close>, which is
  \<open>None\<close> here.\<close>

fun closestLoop :: "real \<Rightarrow> real \<Rightarrow> PathNode list \<Rightarrow> PathNode option \<times> real option \<Rightarrow> PathNode option \<times> real option" where
  "closestLoop lat lng [] st = st"
| "closestLoop lat lng (node # rest) (closest, minDist) =
     (let dist = heuristic lat lng (pn_latitude node) (pn_longitude node)
      in if (case minDist of None \<Rightarrow> True | Some m \<Rightarrow> dist < m)
         then closestLoop lat lng rest (Some node, Some dist)
         else closestLoop lat lng rest (closest, minDist))"

definition searchRadii :: "real list" where
  "searchRadii = [1/1000, 5/1000, 1/100, 5/100]"

fun searchLoop :: "GraphDb \<Rightarrow> real \<Rightarrow> real \<Rightarrow> real list \<Rightarrow> PathNode option" where
  "searchLoop db lat lng [] = None"
| "searchLoop db lat lng (radius # rest) =
     (let nodes = nodesInBox db lat lng radius
      in if length nodes > 0 then fst (closestLoop lat lng nodes (None, None))
         else searchLoop db lat lng rest)"

definition findNearestNode :: "GraphDb \<Rightarrow> real \<Rightarrow> real \<Rightarrow> PathNode option" where
  "findNearestNode db lat lng = searchLoop db lat lng searchRadii"

text \<open>The adjacency \<open>Map\<close>, in insertion order. A missing key is created with one entry,
  an existing key gets the entry appended.\<close>

type_synonym adjacency = "(string \<times> AdjEntry list) list"

fun adjPush :: "adjacency \<Rightarrow> string \<Rightarrow> AdjEntry \<Rightarrow> adjacency" where
  "adjPush [] k e = [(k, [e])]"
| "adjPush ((k', es) # rest) k e =
     (if k' = k then (k', es @ [e]) # rest else (k', es) # adjPush rest k e)"

text \<open>\<open>edge.penalty === 0 ? 1 : edge.penalty\<close>, and the entry pushed for an edge.\<close>

definition effectivePenalty :: "GraphEdge \<Rightarrow> real" where
  "effectivePenalty edge = (if penalty edge = 0 then 1 else penalty edge)"

definition adjEntryOf :: "GraphEdge \<Rightarrow> AdjEntry" where
  "adjEntryOf edge =
     \<lparr>adj_nodeId = endNodeId edge, adj_cost = distance edge * effectivePenalty edge,
      adj_distance = distance edge, adj_edgeId = ge_id edge\<rparr>"

definition buildAdjacencyList :: "GraphEdge list \<Rightarrow> adjacency" where
  "buildAdjacencyList edges = fold (\<lambda>edge adj. adjPush adj (startNodeId edge) (adjEntryOf edge)) edges []"

text \<open>\<open>adjacency.get(id) || []\<close>.\<close>

definition neighborsOf :: "adjacency \<Rightarrow> string \<Rightarrow> AdjEntry list" where
  "neighborsOf adj k = (case map_of adj k of None \<Rightarrow> [] | Some es \<Rightarrow> es)"

text \<open>The mutable state of the search. In \<open>gScore\<close> and \<open>distanceFrom\<close> a missing key is the
  \<open>undefined\<close> that the source replaces by \<open>Infinity\<close> or 0 where it reads the map.\<close>

record AStar =
  openSet :: "QueueItem list"
  gScore :: "string \<rightharpoonup> real"
  cameFrom :: "string \<rightharpoonup> string"
  distanceFrom :: "string \<rightharpoonup> real"
  visited :: "string set"

text \<open>
  The queue is a \<open>TinyQueue\<close> ordered by \<open>fScore\<close>, a binary heap of a library outside the
  repository. It is modelled as a list: \<open>push\<close> appends, \<open>pop\<close> removes an item of least
  \<open>fScore\<close> (the first such item). The proofs use only that the popped item is in the
  queue, has least \<open>fScore\<close>, and that the other items stay.
\<close>

fun minItem :: "QueueItem \<Rightarrow> QueueItem list \<Rightarrow> QueueItem" where
  "minItem m [] = m"
| "minItem m (x # xs) = (if fScore x < fScore m then minItem x xs else minItem m xs)"

definition queuePop :: "QueueItem list \<Rightarrow> (QueueItem \<times> QueueItem list) option" where
  "queuePop q = (case q of [] \<Rightarrow> None | x # xs \<Rightarrow> (let m = minItem x xs in Some (m, remove1 m q)))"

definition queuePush :: "QueueItem list \<Rightarrow> QueueItem \<Rightarrow> QueueItem list" where
  "queuePush q x = q @ [x]"

text \<open>The body of the loop over the neighbours of the current node. A current node without
  recorded cost has tentative cost \<open>Infinity\<close>, which is below nothing.\<close>

definition relax :: "(string \<rightharpoonup> PathNode) \<Rightarrow> PathNode \<Rightarrow> string \<Rightarrow> AdjEntry \<Rightarrow> AStar \<Rightarrow> AStar" where
  "relax nodeMap endNode current neighbor s =
     (case gScore s current of
        None \<Rightarrow> s
      | Some currentG \<Rightarrow>
          (let tentativeGScore = currentG + adj_cost neighbor;
               tentativeDistance = (case distanceFrom s current of None \<Rightarrow> 0 | Some d \<Rightarrow> d) + adj_distance neighbor
           in if (case gScore s (adj_nodeId neighbor) of None \<Rightarrow> True | Some neighborG \<Rightarrow> tentativeGScore < neighborG)
              then
                (let s1 = s\<lparr>cameFrom := (cameFrom s)(adj_nodeId neighbor \<mapsto> current),
                             gScore := (gScore s)(adj_nodeId neighbor \<mapsto> tentativeGScore),
                             distanceFrom := (distanceFrom s)(adj_nodeId neighbor \<mapsto> tentativeDistance)\<rparr>
                 in case nodeMap (adj_nodeId neighbor) of
                      None \<Rightarrow> s1
                    | Some neighborNode \<Rightarrow>
                        s1\<lparr>openSet := queuePush (openSet s1)
                             \<lparr>nodeId = adj_nodeId neighbor,
                              fScore = tentativeGScore +
                                heuristic (pn_latitude neighborNode) (pn_longitude neighborNode)
                                          (pn_latitude endNode) (pn_longitude endNode)\<rparr>\<rparr>)
              else s))"

text \<open>The walk along the predecessor map, \<open>while (nodeId)\<close>: it ends at \<open>undefined\<close> and at
  the empty string, and it does not end when the predecessors form a cycle.\<close>

partial_function (option) reconstruct ::
  "(string \<rightharpoonup> PathNode) \<Rightarrow> (string \<rightharpoonup> string) \<Rightarrow> string option \<Rightarrow> Coord list \<Rightarrow> Coord list option" where
  "reconstruct nodeMap cf nid acc =
     (case nid of
        None \<Rightarrow> Some acc
      | Some n \<Rightarrow>
          if n = [] then Some acc
          else reconstruct nodeMap cf (cf n)
                 (case nodeMap n of
                    None \<Rightarrow> acc
                  | Some node \<Rightarrow> \<lparr>pt_lat = pn_latitude node, pt_lng = pn_longitude node\<rparr> # acc))"

text \<open>The exit taken when the end node is popped. The outer \<open>None\<close> stands for a call that
  does not return.\<close>

definition finish :: "(string \<rightharpoonup> PathNode) \<Rightarrow> PathNode \<Rightarrow> AStar \<Rightarrow> PathResult option option" where
  "finish nodeMap endNode s =
     (let dist = (case distanceFrom s (pn_id endNode) of None \<Rightarrow> 0 | Some d \<Rightarrow> d);
          cost = (case gScore s (pn_id endNode) of None \<Rightarrow> 0 | Some g \<Rightarrow> g)
      in case reconstruct nodeMap (cameFrom s) (Some (pn_id endNode)) [] of
           None \<Rightarrow> None
         | Some p \<Rightarrow>
             Some (Some \<lparr>path = p, totalDistance = dist, totalCost = cost,
                         estimatedTime = (dist / 1000 / 30) * 60\<rparr>))"

text \<open>The loop over all neighbours of the current node.\<close>

definition expand :: "(string \<rightharpoonup> PathNode) \<Rightarrow> adjacency \<Rightarrow> PathNode \<Rightarrow> string \<Rightarrow> AStar \<Rightarrow> AStar" where
  "expand nodeMap adjacency endNode current s =
     fold (relax nodeMap endNode current) (neighborsOf adjacency current) s"

text \<open>For the termination of the search: the node ids that can still be expanded.\<close>

definition targets :: "adjacency \<Rightarrow> string set" where
  "targets adj = set (concat (map (\<lambda>(k, es). map adj_nodeId es) adj))"

definition pending :: "adjacency \<Rightarrow> AStar \<Rightarrow> string set" where
  "pending adj s = (nodeId ` set (openSet s) \<union> targets adj) - visited s"

lemma minItem_in: "minItem m xs \<in> set (m # xs)"
  by (induction xs arbitrary: m) auto

lemma queuePop_Some:
  assumes "queuePop q = Some (m, rest)"
  shows "m \<in> set q \<and> rest = remove1 m q"
  using assms minItem_in by (auto simp: queuePop_def Let_def split: list.splits)

lemma queuePop_length:
  assumes "queuePop q = Some (m, rest)"
  shows "length rest < length q"
  using queuePop_Some[OF assms] by (cases q) (auto simp: length_remove1 dest: length_pos_if_in_set)

lemma relax_visited: "visited (relax nodeMap endNode current nb s) = visited s"
  by (simp add: relax_def Let_def split: option.splits)

lemma relax_openSet:
  "nodeId ` set (openSet (relax nodeMap endNode current nb s)) \<subseteq> insert (adj_nodeId nb) (nodeId ` set (openSet s))"
  by (auto simp: relax_def Let_def queuePush_def split: option.splits)

lemma fold_relax_visited: "visited (fold (relax nodeMap endNode current) nbs s) = visited s"
  by (induction nbs arbitrary: s) (simp_all add: relax_visited)

lemma fold_relax_openSet:
  "nodeId ` set (openSet (fold (relax nodeMap endNode current) nbs s))
     \<subseteq> adj_nodeId ` set nbs \<union> nodeId ` set (openSet s)"
proof (induction nbs arbitrary: s)
  case Nil
  then show ?case by simp
next
  case (Cons nb nbs)
  have "nodeId ` set (openSet (fold (relax nodeMap endNode current) nbs (relax nodeMap endNode current nb s)))
          \<subseteq> adj_nodeId ` set nbs \<union> nodeId ` set (openSet (relax nodeMap endNode current nb s))"
    by (rule Cons.IH)
  with relax_openSet[of nodeMap endNode current nb s] show ?case
    by (simp only: fold_simps comp_apply list.set image_insert) blast
qed

lemma neighborsOf_targets: "adj_nodeId ` set (neighborsOf adj k) \<subseteq> targets adj"
proof
  fix x
  assume "x \<in> adj_nodeId ` set (neighborsOf adj k)"
  then obtain e where e: "e \<in> set (neighborsOf adj k)" and x: "x = adj_nodeId e" by blast
  from e obtain es where m: "map_of adj k = Some es" and ees: "e \<in> set es"
    by (cases "map_of adj k") (auto simp: neighborsOf_def)
  from m have "(k, es) \<in> set adj" by (rule map_of_SomeD)
  with ees x show "x \<in> targets adj"
    unfolding targets_def by (auto intro!: bexI[of _ "(k, es)"])
qed

lemma finite_targets: "finite (targets adj)"
  unfolding targets_def by (rule finite_set)

lemma finite_pending: "finite (pending adj s)"
  by (simp add: pending_def finite_targets)

lemma pending_expand:
  assumes "queuePop (openSet s) = Some (current, rest)" and "nodeId current \<notin> visited s"
  shows "pending adj (expand nodeMap adj endNode (nodeId current)
            (s\<lparr>openSet := rest, visited := insert (nodeId current) (visited s)\<rparr>)) \<subset> pending adj s"
proof -
  let ?s1 = "s\<lparr>openSet := rest, visited := insert (nodeId current) (visited s)\<rparr>"
  let ?s2 = "expand nodeMap adj endNode (nodeId current) ?s1"
  from queuePop_Some[OF assms(1)] have cur: "current \<in> set (openSet s)" and rest: "set rest \<subseteq> set (openSet s)"
    using set_remove1_subset[of current "openSet s"] by auto
  have v: "visited ?s2 = insert (nodeId current) (visited s)"
    by (simp add: expand_def fold_relax_visited)
  have o: "nodeId ` set (openSet ?s2) \<subseteq> targets adj \<union> nodeId ` set (openSet s)"
    using fold_relax_openSet[of nodeMap endNode "nodeId current" "neighborsOf adj (nodeId current)" ?s1]
      neighborsOf_targets[of adj "nodeId current"] image_mono[OF rest, of nodeId]
    by (simp add: expand_def) blast
  have "pending adj ?s2 \<subseteq> pending adj s - {nodeId current}"
    using o by (auto simp: pending_def v)
  moreover have "nodeId current \<in> pending adj s"
    using cur assms(2) by (auto simp: pending_def)
  ultimately show ?thesis by auto
qed

lemma pending_pop:
  assumes "queuePop (openSet s) = Some (current, rest)"
  shows "pending adj (s\<lparr>openSet := rest\<rparr>) \<subseteq> pending adj s"
  using queuePop_Some[OF assms] set_remove1_subset[of current "openSet s"]
  by (auto simp: pending_def)

text \<open>The \<open>while\<close> loop of \<open>findPath\<close>. It ends with \<open>Some None\<close> (the \<open>null\<close> after the loop)
  when the queue is empty.\<close>

function astar :: "(string \<rightharpoonup> PathNode) \<Rightarrow> adjacency \<Rightarrow> PathNode \<Rightarrow> AStar \<Rightarrow> PathResult option option" where
  "astar nodeMap adjacency endNode s =
     (case queuePop (openSet s) of
        None \<Rightarrow> Some None
      | Some (current, rest) \<Rightarrow>
          if nodeId current = pn_id endNode then finish nodeMap endNode (s\<lparr>openSet := rest\<rparr>)
          else if nodeId current \<in> visited s then astar nodeMap adjacency endNode (s\<lparr>openSet := rest\<rparr>)
          else astar nodeMap adjacency endNode
                 (expand nodeMap adjacency endNode (nodeId current)
                    (s\<lparr>openSet := rest, visited := insert (nodeId current) (visited s)\<rparr>)))"
  by pat_completeness auto
termination
  apply (relation "inv_image (finite_psubset <*lex*> measure length) (\<lambda>(nodeMap, adj, endNode, s). (pending adj s, openSet s))")
  subgoal by (intro wf_inv_image wf_lex_prod wf_finite_psubset wf_measure)
  subgoal for nodeMap adjacency endNode s x2 current rest
    using queuePop_length[of "openSet s" current rest] pending_pop[of s current rest adjacency]
    by (auto simp: finite_pending)
  subgoal for nodeMap adjacency endNode s x2 current rest
    using pending_expand[of s current rest adjacency nodeMap endNode]
    by (simp add: finite_pending)
  done

declare astar.simps [simp del]

text \<open>The node lookup, the initial state and \<open>findPath\<close> itself.\<close>

definition buildNodeMap :: "PathNode list \<Rightarrow> (string \<rightharpoonup> PathNode)" where
  "buildNodeMap allNodes = fold (\<lambda>node m. m(pn_id node \<mapsto> node)) allNodes Map.empty"

definition initialState :: "PathNode \<Rightarrow> AStar" where
  "initialState startNode =
     \<lparr>openSet = [\<lparr>nodeId = pn_id startNode, fScore = 0\<rparr>],
      gScore = [pn_id startNode \<mapsto> 0],
      cameFrom = Map.empty,
      distanceFrom = [pn_id startNode \<mapsto> 0],
      visited = {}\<rparr>"

definition findPath :: "GraphDb \<Rightarrow> real \<Rightarrow> real \<Rightarrow> real \<Rightarrow> real \<Rightarrow> PathResult option option" where
  "findPath db startLat startLng endLat endLng =
     (case (findNearestNode db startLat startLng, findNearestNode db endLat endLng) of
        (Some startNode, Some endNode) \<Rightarrow>
          (let allNodes = map selectNode (graphNode db);
               allEdges = graphEdge db;
               nodeMap = buildNodeMap allNodes;
               adjacency = buildAdjacencyList allEdges
           in astar nodeMap adjacency endNode (initialState startNode))
      | _ \<Rightarrow> Some None)"


text \<open>Sample data used by the concrete evaluations below.\<close>

definition nodeB :: GraphNode where
  "nodeB = \<lparr>gn_id = ''b'', gn_osmId = 2, gn_latitude = 0, gn_longitude = 3/1000\<rparr>"

definition nodeC :: GraphNode where
  "nodeC = \<lparr>gn_id = ''c'', gn_osmId = 3, gn_latitude = 0, gn_longitude = 2/1000\<rparr>"


definition loopEdge :: GraphEdge where
  "loopEdge = \<lparr>ge_id = ''l'', startNodeId = ''b'', endNodeId = ''b'', distance = 0, baseCost = 0, penalty = 3\<rparr>"

definition entryBC :: AdjEntry where
  "entryBC = \<lparr>adj_nodeId = ''c'', adj_cost = 5, adj_distance = 5, adj_edgeId = ''e1''\<rparr>"

definition oneNode :: GraphDb where
  "oneNode = \<lparr>graphNode = [nodeB], graphEdge = []\<rparr>"

definition noNodes :: GraphDb where
  "noNodes = \<lparr>graphNode = [], graphEdge = []\<rparr>"

definition nodeFar :: GraphNode where
  "nodeFar = \<lparr>gn_id = ''f'', gn_osmId = 9, gn_latitude = 0, gn_longitude = 1\<rparr>"

definition apartNodes :: GraphDb where
  "apartNodes = \<lparr>graphNode = [nodeB, nodeFar], graphEdge = []\<rparr>"

definition edgeBF :: GraphEdge where
  "edgeBF = \<lparr>ge_id = ''bf'', startNodeId = ''b'', endNodeId = ''f'', distance = 5, baseCost = 5, penalty = 1\<rparr>"

definition joinedNodes :: GraphDb where
  "joinedNodes = \<lparr>graphNode = [nodeB, nodeFar], graphEdge = [edgeBF]\<rparr>"

text \<open>Costs and distances are recorded together, and every queued node has a recorded cost.\<close>

definition recorded :: "AStar \<Rightarrow> bool" where
  "recorded s \<longleftrightarrow>
     dom (distanceFrom s) = dom (gScore s) \<and> nodeId ` set (openSet s) \<subseteq> dom (gScore s)"

text \<open>The edge relation of the stored graph, for stating reachability.\<close>

definition edgeRel :: "GraphEdge list \<Rightarrow> (string \<times> string) set" where
  "edgeRel edges = (\<lambda>e. (startNodeId e, endNodeId e)) ` set edges"

text \<open>Every queued node is a stored node and is the start node or has a predecessor, and
  every predecessor is a stored node.\<close>

definition linked :: "(string \<rightharpoonup> PathNode) \<Rightarrow> string \<Rightarrow> AStar \<Rightarrow> bool" where
  "linked nm s0 s \<longleftrightarrow>
     (\<forall>q \<in> set (openSet s). nodeId q \<in> dom nm \<and> (nodeId q = s0 \<or> nodeId q \<in> dom (cameFrom s))) \<and>
     ran (cameFrom s) \<subseteq> dom nm"

text \<open>Walks in the stored graph: a list of edges, each starting where the previous one ends.
  The cost of a walk is the sum of the penalized edge costs, its distance the sum of the raw
  edge distances.\<close>

fun walk :: "string \<Rightarrow> GraphEdge list \<Rightarrow> string \<Rightarrow> bool" where
  "walk u [] v = (u = v)"
| "walk u (e # es) v = (startNodeId e = u \<and> walk (endNodeId e) es v)"

definition edgeCost :: "GraphEdge \<Rightarrow> real" where
  "edgeCost e = distance e * effectivePenalty e"

definition walkCost :: "GraphEdge list \<Rightarrow> real" where
  "walkCost w = sum_list (map edgeCost w)"

definition walkDistance :: "GraphEdge list \<Rightarrow> real" where
  "walkDistance w = sum_list (map distance w)"

text \<open>The heuristic value that the search attaches to a node id: the great-circle distance from
  the stored node to the end node.\<close>

definition hOf :: "(string \<rightharpoonup> PathNode) \<Rightarrow> PathNode \<Rightarrow> string \<Rightarrow> real" where
  "hOf nm en n =
     (case nm n of
        None \<Rightarrow> 0
      | Some node \<Rightarrow> heuristic (pn_latitude node) (pn_longitude node) (pn_latitude en) (pn_longitude en))"

text \<open>The coordinates of a list of node ids, as the predecessor walk collects them.\<close>

definition coordsOf :: "(string \<rightharpoonup> PathNode) \<Rightarrow> string list \<Rightarrow> Coord list" where
  "coordsOf nm ids =
     concat (map (\<lambda>i. case nm i of None \<Rightarrow> []
                         | Some node \<Rightarrow> [\<lparr>pt_lat = pn_latitude node, pt_lng = pn_longitude node\<rparr>]) ids)"

text \<open>A reversed walk that the predecessor map follows from a node back to the start node.\<close>

fun backtrack :: "(string \<rightharpoonup> string) \<Rightarrow> string \<Rightarrow> string \<Rightarrow> GraphEdge list \<Rightarrow> bool" where
  "backtrack cf s0 n [] = (n = s0 \<and> cf s0 = None)"
| "backtrack cf s0 n (e # rw) =
     (endNodeId e = n \<and> cf n = Some (startNodeId e) \<and> backtrack cf s0 (startNodeId e) rw)"

text \<open>The parts of the invariant of the search loop: every recorded cost is the cost of a walk
  that the predecessor map follows and whose inner nodes are visited; visited nodes have
  minimal cost; the edges of a set \<open>R\<close> start at visited nodes and are relaxed; every
  unvisited node with a recorded cost has a queue item that is not above cost plus heuristic;
  no queue item is below the recorded cost plus heuristic.\<close>

definition treeOK :: "GraphEdge list \<Rightarrow> string \<Rightarrow> AStar \<Rightarrow> bool" where
  "treeOK E s0 s \<longleftrightarrow>
     (\<forall>n g. gScore s n = Some g \<longrightarrow>
        (\<exists>rw. backtrack (cameFrom s) s0 n rw \<and> set rw \<subseteq> set E \<and> walkCost rw = g \<and>
              distanceFrom s n = Some (walkDistance rw) \<and>
              (\<forall>e \<in> set rw. startNodeId e \<in> visited s)))"

definition closedOpt :: "GraphEdge list \<Rightarrow> string \<Rightarrow> AStar \<Rightarrow> bool" where
  "closedOpt E s0 s \<longleftrightarrow>
     (\<forall>n \<in> visited s. \<exists>g. gScore s n = Some g \<and>
        (\<forall>w. walk s0 w n \<and> set w \<subseteq> set E \<longrightarrow> g \<le> walkCost w))"

definition relaxedOK :: "GraphEdge set \<Rightarrow> AStar \<Rightarrow> bool" where
  "relaxedOK R s \<longleftrightarrow>
     (\<forall>e \<in> R. startNodeId e \<in> visited s \<and>
        (\<exists>g gn. gScore s (startNodeId e) = Some g \<and> gScore s (endNodeId e) = Some gn \<and>
                 gn \<le> g + edgeCost e))"

definition openQueued :: "(string \<Rightarrow> real) \<Rightarrow> AStar \<Rightarrow> bool" where
  "openQueued h s \<longleftrightarrow>
     (\<forall>n g. gScore s n = Some g \<and> n \<notin> visited s \<longrightarrow>
        (\<exists>q \<in> set (openSet s). nodeId q = n \<and> fScore q \<le> g + h n))"

definition queueStale :: "(string \<Rightarrow> real) \<Rightarrow> AStar \<Rightarrow> bool" where
  "queueStale h s \<longleftrightarrow>
     (\<forall>q \<in> set (openSet s). \<exists>g. gScore s (nodeId q) = Some g \<and> g + h (nodeId q) \<le> fScore q)"

definition searchInv ::
  "(string \<rightharpoonup> PathNode) \<Rightarrow> GraphEdge list \<Rightarrow> PathNode \<Rightarrow> string \<Rightarrow> GraphEdge set \<Rightarrow> AStar \<Rightarrow> bool" where
  "searchInv nm E en s0 R s \<longleftrightarrow>
     s0 \<in> visited s \<and> pn_id en \<notin> visited s \<and> treeOK E s0 s \<and> closedOpt E s0 s \<and> relaxedOK R s \<and>
     openQueued (hOf nm en) s \<and> queueStale (hOf nm en) s"

definition loopInv :: "(string \<rightharpoonup> PathNode) \<Rightarrow> GraphEdge list \<Rightarrow> PathNode \<Rightarrow> string \<Rightarrow> AStar \<Rightarrow> bool" where
  "loopInv nm E en s0 s \<longleftrightarrow> searchInv nm E en s0 {e \<in> set E. startNodeId e \<in> visited s} s"

definition consistent :: "(string \<rightharpoonup> PathNode) \<Rightarrow> GraphEdge list \<Rightarrow> PathNode \<Rightarrow> bool" where
  "consistent nm E en \<longleftrightarrow>
     (\<forall>e \<in> set E. hOf nm en (startNodeId e) \<le> edgeCost e + hOf nm en (endNodeId e))"

text \<open>The great-circle distance from a stored node to a target node.\<close>

definition straightLineTo :: "GraphDb \<Rightarrow> PathNode \<Rightarrow> string \<Rightarrow> real" where
  "straightLineTo db target n = hOf (buildNodeMap (map selectNode (graphNode db))) target n"

text \<open>Three nodes on the equator, 0.01 degrees apart, with roads longer than the great-circle
  distances; and four nodes on the equator, one degree apart, with roads far shorter than
  the great-circle distances.\<close>

definition lineP :: GraphNode where
  "lineP = \<lparr>gn_id = ''p'', gn_osmId = 10, gn_latitude = 0, gn_longitude = 0\<rparr>"

definition lineQ :: GraphNode where
  "lineQ = \<lparr>gn_id = ''q'', gn_osmId = 11, gn_latitude = 0, gn_longitude = 1/100\<rparr>"

definition lineR :: GraphNode where
  "lineR = \<lparr>gn_id = ''r'', gn_osmId = 12, gn_latitude = 0, gn_longitude = 1/50\<rparr>"

definition linePQ :: GraphEdge where
  "linePQ = \<lparr>ge_id = ''pq'', startNodeId = ''p'', endNodeId = ''q'', distance = 1500, baseCost = 1500, penalty = 1\<rparr>"

definition lineQR :: GraphEdge where
  "lineQR = \<lparr>ge_id = ''qr'', startNodeId = ''q'', endNodeId = ''r'', distance = 1500, baseCost = 1500, penalty = 1\<rparr>"

definition linePR :: GraphEdge where
  "linePR = \<lparr>ge_id = ''pr'', startNodeId = ''p'', endNodeId = ''r'', distance = 4000, baseCost = 4000, penalty = 1\<rparr>"

definition lineGraph :: GraphDb where
  "lineGraph = \<lparr>graphNode = [lineP, lineQ, lineR], graphEdge = [linePQ, lineQR, linePR]\<rparr>"

definition sqA :: GraphNode where
  "sqA = \<lparr>gn_id = ''A'', gn_osmId = 21, gn_latitude = 0, gn_longitude = 0\<rparr>"

definition sqB :: GraphNode where
  "sqB = \<lparr>gn_id = ''B'', gn_osmId = 22, gn_latitude = 0, gn_longitude = 1\<rparr>"

definition sqC :: GraphNode where
  "sqC = \<lparr>gn_id = ''C'', gn_osmId = 23, gn_latitude = 0, gn_longitude = 2\<rparr>"

definition sqD :: GraphNode where
  "sqD = \<lparr>gn_id = ''D'', gn_osmId = 24, gn_latitude = 0, gn_longitude = 3\<rparr>"

definition road :: "string \<Rightarrow> string \<Rightarrow> string \<Rightarrow> real \<Rightarrow> real \<Rightarrow> GraphEdge" where
  "road i a b d p = \<lparr>ge_id = i, startNodeId = a, endNodeId = b, distance = d, baseCost = d, penalty = p\<rparr>"

definition ringGraph :: GraphDb where
  "ringGraph =
     \<lparr>graphNode = [sqA, sqB, sqC, sqD],
      graphEdge = [road ''1'' ''A'' ''B'' 100 1, road ''2'' ''B'' ''A'' 100 1,
                   road ''3'' ''B'' ''C'' 100 1, road ''4'' ''C'' ''B'' 100 1,
                   road ''5'' ''C'' ''D'' 100 1, road ''6'' ''D'' ''C'' 100 1,
                   road ''7'' ''A'' ''D'' 1000 5, road ''8'' ''D'' ''A'' 1000 5]\<rparr>"

subsection \<open>Traversal cost\<close>

lemma neighborsOf_adjPush:
  "neighborsOf (adjPush adj k e) k' = (if k' = k then neighborsOf adj k @ [e] else neighborsOf adj k')"
  by (induction adj k e rule: adjPush.induct) (auto simp: neighborsOf_def)

lemma neighborsOf_fold_adjPush:
  "neighborsOf (fold (\<lambda>edge adj. adjPush adj (startNodeId edge) (adjEntryOf edge)) edges adj) k =
     neighborsOf adj k @ map adjEntryOf (filter (\<lambda>e. startNodeId e = k) edges)"
  by (induction edges arbitrary: adj) (auto simp: neighborsOf_adjPush)

lemma neighborsOf_buildAdjacencyList:
  "neighborsOf (buildAdjacencyList edges) k = map adjEntryOf (filter (\<lambda>e. startNodeId e = k) edges)"
proof -
  have "neighborsOf [] k = []" by (simp add: neighborsOf_def)
  then show ?thesis by (simp add: buildAdjacencyList_def neighborsOf_fold_adjPush)
qed

text \<open>
  Claim C4. The adjacency entries that the search reads for a node are exactly the
  entries built from the edges that start at that node, in order; the cost of the entry
  of an edge is the edge's distance times its effective penalty, which is the penalty
  when that is not 0 and 1 otherwise; so an edge with penalty 0 costs its distance.
\<close>

theorem traversal_cost:
  "neighborsOf (buildAdjacencyList edges) k = map adjEntryOf (filter (\<lambda>e. startNodeId e = k) edges) \<and>
   adj_cost (adjEntryOf edge) = distance edge * (if penalty edge = 0 then 1 else penalty edge) \<and>
   adj_cost (adjEntryOf (edge\<lparr>penalty := 0\<rparr>)) = distance edge"
  by (simp add: neighborsOf_buildAdjacencyList adjEntryOf_def effectivePenalty_def)

subsection \<open>Endpoint snapping\<close>

abbreviation hdist :: "real \<Rightarrow> real \<Rightarrow> PathNode \<Rightarrow> real" where
  "hdist la lo n \<equiv> heuristic la lo (pn_latitude n) (pn_longitude n)"

lemma closestLoop_inv:
  assumes "st = (None, None) \<or> (\<exists>x. st = (Some x, Some (hdist la lo x)))"
  shows "(nodes = [] \<and> st = (None, None) \<and> closestLoop la lo nodes st = (None, None)) \<or>
         (\<exists>y. closestLoop la lo nodes st = (Some y, Some (hdist la lo y)) \<and>
              (y \<in> set nodes \<or> fst st = Some y) \<and>
              (\<forall>m \<in> set nodes. hdist la lo y \<le> hdist la lo m) \<and>
              (\<forall>x. fst st = Some x \<longrightarrow> hdist la lo y \<le> hdist la lo x))"
  using assms
proof (induction nodes arbitrary: st)
  case Nil
  then show ?case by auto
next
  case (Cons node rest)
  obtain c md where st: "st = (c, md)" by (cases st)
  let ?d = "hdist la lo node"
  show ?case
  proof (cases "case md of None \<Rightarrow> True | Some m \<Rightarrow> ?d < m")
    case True
    then have step: "closestLoop la lo (node # rest) st = closestLoop la lo rest (Some node, Some ?d)"
      by (simp add: st Let_def)
    have "(rest = [] \<and> (Some node, Some ?d) = (None, None) \<and> closestLoop la lo rest (Some node, Some ?d) = (None, None)) \<or>
         (\<exists>y. closestLoop la lo rest (Some node, Some ?d) = (Some y, Some (hdist la lo y)) \<and>
              (y \<in> set rest \<or> fst (Some node, Some ?d) = Some y) \<and>
              (\<forall>m \<in> set rest. hdist la lo y \<le> hdist la lo m) \<and>
              (\<forall>x. fst (Some node, Some ?d) = Some x \<longrightarrow> hdist la lo y \<le> hdist la lo x))"
      by (rule Cons.IH) auto
    then obtain y where y: "closestLoop la lo rest (Some node, Some ?d) = (Some y, Some (hdist la lo y))"
      "y \<in> set rest \<or> node = y" "\<forall>m \<in> set rest. hdist la lo y \<le> hdist la lo m"
      "hdist la lo y \<le> ?d" by auto
    have "\<forall>x. fst st = Some x \<longrightarrow> hdist la lo y \<le> hdist la lo x"
      using Cons.prems True y(4) by (auto simp: st)
    with y show ?thesis unfolding step by auto
  next
    case False
    then have step: "closestLoop la lo (node # rest) st = closestLoop la lo rest st"
      by (simp add: st Let_def)
    from False Cons.prems obtain x where x: "st = (Some x, Some (hdist la lo x))" "hdist la lo x \<le> ?d"
      by (auto simp: st)
    have "(rest = [] \<and> st = (None, None) \<and> closestLoop la lo rest st = (None, None)) \<or>
         (\<exists>y. closestLoop la lo rest st = (Some y, Some (hdist la lo y)) \<and>
              (y \<in> set rest \<or> fst st = Some y) \<and>
              (\<forall>m \<in> set rest. hdist la lo y \<le> hdist la lo m) \<and>
              (\<forall>x. fst st = Some x \<longrightarrow> hdist la lo y \<le> hdist la lo x))"
      by (rule Cons.IH) (use x in auto)
    then obtain y where y: "closestLoop la lo rest st = (Some y, Some (hdist la lo y))"
      "y \<in> set rest \<or> fst st = Some y" "\<forall>m \<in> set rest. hdist la lo y \<le> hdist la lo m"
      "\<forall>x. fst st = Some x \<longrightarrow> hdist la lo y \<le> hdist la lo x" using x by auto
    from y(4) x have "hdist la lo y \<le> ?d" by auto
    with y show ?thesis unfolding step by auto
  qed
qed

lemma closestLoop_min:
  assumes "nodes \<noteq> []"
  shows "\<exists>y. fst (closestLoop la lo nodes (None, None)) = Some y \<and> y \<in> set nodes \<and>
             (\<forall>m \<in> set nodes. hdist la lo y \<le> hdist la lo m)"
  using closestLoop_inv[of "(None, None)" la lo nodes] assms by auto



lemma searchLoop_Some:
  assumes "searchLoop db la lo radii = Some n"
  shows "\<exists>pre r post. radii = pre @ r # post \<and> (\<forall>r' \<in> set pre. nodesInBox db la lo r' = []) \<and>
           n \<in> set (nodesInBox db la lo r) \<and>
           (\<forall>m \<in> set (nodesInBox db la lo r). hdist la lo n \<le> hdist la lo m)"
  using assms
proof (induction radii)
  case Nil
  then show ?case by simp
next
  case (Cons r rs)
  show ?case
  proof (cases "nodesInBox db la lo r = []")
    case True
    with Cons.prems have "searchLoop db la lo rs = Some n" by simp
    from Cons.IH[OF this] obtain pre r' post where
      "rs = pre @ r' # post" "\<forall>x \<in> set pre. nodesInBox db la lo x = []"
      "n \<in> set (nodesInBox db la lo r')" "\<forall>m \<in> set (nodesInBox db la lo r'). hdist la lo n \<le> hdist la lo m"
      by blast
    with True show ?thesis
      by (intro exI[of _ "r # pre"] exI[of _ r'] exI[of _ post]) auto
  next
    case False
    from closestLoop_min[OF False, of la lo] Cons.prems False
    have "n \<in> set (nodesInBox db la lo r) \<and> (\<forall>m \<in> set (nodesInBox db la lo r). hdist la lo n \<le> hdist la lo m)"
      by (auto simp: Let_def)
    then show ?thesis
      by (intro exI[of _ "[]"] exI[of _ r] exI[of _ rs]) auto
  qed
qed






subsection \<open>The search loop\<close>

text \<open>An invariant of the loop holds when the end node is popped; otherwise the search
  returns null.\<close>

lemma astar_rule:
  assumes "I s"
    and skip: "\<And>s u rest. I s \<Longrightarrow> queuePop (openSet s) = Some (u, rest) \<Longrightarrow> nodeId u \<noteq> pn_id en \<Longrightarrow>
                 nodeId u \<in> visited s \<Longrightarrow> I (s\<lparr>openSet := rest\<rparr>)"
    and exp: "\<And>s u rest. I s \<Longrightarrow> queuePop (openSet s) = Some (u, rest) \<Longrightarrow> nodeId u \<noteq> pn_id en \<Longrightarrow>
                 nodeId u \<notin> visited s \<Longrightarrow>
                 I (expand nm adj en (nodeId u) (s\<lparr>openSet := rest, visited := insert (nodeId u) (visited s)\<rparr>))"
  shows "astar nm adj en s = Some None \<or>
         (\<exists>s' u rest. I s' \<and> queuePop (openSet s') = Some (u, rest) \<and> nodeId u = pn_id en \<and>
             astar nm adj en s = finish nm en (s'\<lparr>openSet := rest\<rparr>))"
  using assms
proof (induction nm adj en s rule: astar.induct)
  case (1 nodeMap adjacency endNode s)
  show ?case
  proof (cases "queuePop (openSet s)")
    case None
    then show ?thesis by (simp add: astar.simps)
  next
    case (Some a)
    obtain u rest where a: "a = (u, rest)" by (cases a)
    show ?thesis
    proof (cases "nodeId u = pn_id endNode")
      case True
      then have "astar nodeMap adjacency endNode s = finish nodeMap endNode (s\<lparr>openSet := rest\<rparr>)"
        using Some a by (simp add: astar.simps)
      then show ?thesis using "1.prems" Some a True by blast
    next
      case False
      show ?thesis
      proof (cases "nodeId u \<in> visited s")
        case True
        have eq: "astar nodeMap adjacency endNode s = astar nodeMap adjacency endNode (s\<lparr>openSet := rest\<rparr>)"
          using Some a False True by (subst astar.simps) simp
        have "I (s\<lparr>openSet := rest\<rparr>)"
          using "1.prems"(2)[OF "1.prems"(1) _ False True] Some a by simp
        then show ?thesis unfolding eq
          apply (rule "1.IH"(1)[OF Some a[symmetric] False True])
           apply (rule "1.prems"(2); assumption)
          apply (rule "1.prems"(3); assumption)
          done
      next
        case nv: False
        let ?s' = "expand nodeMap adjacency endNode (nodeId u) (s\<lparr>openSet := rest, visited := insert (nodeId u) (visited s)\<rparr>)"
        have eq: "astar nodeMap adjacency endNode s = astar nodeMap adjacency endNode ?s'"
          using Some a False nv by (subst astar.simps) simp
        have "I ?s'"
          using "1.prems"(3)[OF "1.prems"(1) _ False nv] Some a by simp
        then show ?thesis unfolding eq
          apply (rule "1.IH"(2)[OF Some a[symmetric] False nv])
           apply (rule "1.prems"(2); assumption)
          apply (rule "1.prems"(3); assumption)
          done
      qed
    qed
  qed
qed

subsection \<open>Relaxation\<close>

lemma recorded_initial: "recorded (initialState st)"
  by (simp add: recorded_def initialState_def)

lemma recorded_relax: "recorded s \<Longrightarrow> recorded (relax nm en cur nb s)"
  by (auto simp: recorded_def relax_def Let_def queuePush_def split: option.splits)

lemma recorded_fold_relax: "recorded s \<Longrightarrow> recorded (fold (relax nm en cur) nbs s)"
  by (induction nbs arbitrary: s) (simp_all add: recorded_relax)

lemma recorded_shrink:
  assumes "recorded s" and "set q \<subseteq> set (openSet s)"
  shows "recorded (s\<lparr>openSet := q\<rparr>)" and "recorded (s\<lparr>openSet := q, visited := v\<rparr>)"
proof -
  from assms(1) have a: "dom (distanceFrom s) = dom (gScore s)"
    and b: "nodeId ` set (openSet s) \<subseteq> dom (gScore s)"
    by (simp_all add: recorded_def)
  from image_mono[OF assms(2)] b have c: "nodeId ` set q \<subseteq> dom (gScore s)"
    by (rule subset_trans)
  from a c show "recorded (s\<lparr>openSet := q\<rparr>)" and "recorded (s\<lparr>openSet := q, visited := v\<rparr>)"
    unfolding recorded_def by simp_all
qed

lemma recorded_search:
  "astar nm adj en (initialState st) = Some None \<or>
   (\<exists>s u rest g d. recorded s \<and> queuePop (openSet s) = Some (u, rest) \<and> nodeId u = pn_id en \<and>
       gScore s (pn_id en) = Some g \<and> distanceFrom s (pn_id en) = Some d \<and>
       astar nm adj en (initialState st) = finish nm en (s\<lparr>openSet := rest\<rparr>))"
proof -
  have "astar nm adj en (initialState st) = Some None \<or>
         (\<exists>s' u rest. recorded s' \<and> queuePop (openSet s') = Some (u, rest) \<and> nodeId u = pn_id en \<and>
             astar nm adj en (initialState st) = finish nm en (s'\<lparr>openSet := rest\<rparr>))"
  proof (rule astar_rule[where I = recorded])
    show "recorded (initialState st)" by (rule recorded_initial)
  next
    fix s :: AStar and u rest
    assume "recorded s" "queuePop (openSet s) = Some (u, rest)"
    then show "recorded (s\<lparr>openSet := rest\<rparr>)"
      using queuePop_Some[of "openSet s" u rest] set_remove1_subset[of u "openSet s"]
      by (intro recorded_shrink) auto
  next
    fix s :: AStar and u rest
    assume r: "recorded s" and p: "queuePop (openSet s) = Some (u, rest)"
    have "recorded (s\<lparr>openSet := rest, visited := insert (nodeId u) (visited s)\<rparr>)"
      using r queuePop_Some[OF p] set_remove1_subset[of u "openSet s"]
      by (intro recorded_shrink) auto
    then show "recorded (expand nm adj en (nodeId u) (s\<lparr>openSet := rest, visited := insert (nodeId u) (visited s)\<rparr>))"
      unfolding expand_def by (rule recorded_fold_relax)
  qed
  then show ?thesis
  proof
    assume "astar nm adj en (initialState st) = Some None"
    then show ?thesis by simp
  next
    assume "\<exists>s' u rest. recorded s' \<and> queuePop (openSet s') = Some (u, rest) \<and> nodeId u = pn_id en \<and>
             astar nm adj en (initialState st) = finish nm en (s'\<lparr>openSet := rest\<rparr>)"
    then obtain s' u rest where s': "recorded s'" "queuePop (openSet s') = Some (u, rest)" "nodeId u = pn_id en"
      "astar nm adj en (initialState st) = finish nm en (s'\<lparr>openSet := rest\<rparr>)" by blast
    from queuePop_Some[OF s'(2)] s'(1,3) have "pn_id en \<in> dom (gScore s')" "pn_id en \<in> dom (distanceFrom s')"
      by (auto simp: recorded_def)
    then obtain g d where "gScore s' (pn_id en) = Some g" "distanceFrom s' (pn_id en) = Some d" by blast
    with s' show ?thesis by blast
  qed
qed


text \<open>
  Claim C8. One relaxation step either leaves the search state as it was or the current
  node has a recorded cost and the tentative cost is strictly lower than the neighbour's
  recorded cost (no recorded cost counting as infinite). A current node without recorded
  cost changes nothing; a tentative cost that is not strictly lower changes nothing; a
  neighbour without recorded cost is always updated, to the tentative cost and the current
  node as predecessor. Hence a self-loop of distance 0 changes nothing, and a node without
  adjacency entry is expanded as a node without outgoing edges. Costs and distances are
  recorded together from the initial state on, so that a relaxation that updates reads a
  recorded distance, and when the end node is popped its cost and distance are recorded:
  the defaults 0 of the source are never taken.
\<close>

theorem relaxation_guard:
  "(relax nodeMap endNode cur nb s = s \<or>
      (\<exists>g. gScore s cur = Some g \<and> (\<forall>old. gScore s (adj_nodeId nb) = Some old \<longrightarrow> g + adj_cost nb < old))) \<and>
   (gScore s cur = None \<longrightarrow> relax nodeMap endNode cur nb s = s) \<and>
   (\<forall>g old. gScore s cur = Some g \<and> gScore s (adj_nodeId nb) = Some old \<and> \<not> g + adj_cost nb < old
      \<longrightarrow> relax nodeMap endNode cur nb s = s) \<and>
   (\<forall>g. gScore s cur = Some g \<and> gScore s (adj_nodeId nb) = None \<longrightarrow>
      gScore (relax nodeMap endNode cur nb s) (adj_nodeId nb) = Some (g + adj_cost nb) \<and>
      cameFrom (relax nodeMap endNode cur nb s) (adj_nodeId nb) = Some cur) \<and>
   (startNodeId e = endNodeId e \<and> distance e = 0 \<longrightarrow>
      relax nodeMap endNode (startNodeId e) (adjEntryOf e) s = s) \<and>
   (map_of adjacency cur = None \<longrightarrow> expand nodeMap adjacency endNode cur s = s) \<and>
   recorded (initialState st) \<and>
   (recorded s \<longrightarrow> recorded (relax nodeMap endNode cur nb s)) \<and>
   (recorded s \<and> gScore s cur \<noteq> None \<longrightarrow> distanceFrom s cur \<noteq> None) \<and>
   (astar nodeMap adjacency endNode (initialState st) = Some None \<or>
    (\<exists>s' u rest g d. recorded s' \<and> queuePop (openSet s') = Some (u, rest) \<and> nodeId u = pn_id endNode \<and>
       gScore s' (pn_id endNode) = Some g \<and> distanceFrom s' (pn_id endNode) = Some d \<and>
       astar nodeMap adjacency endNode (initialState st) = finish nodeMap endNode (s'\<lparr>openSet := rest\<rparr>)))"
proof (intro conjI allI impI)
  show "relax nodeMap endNode cur nb s = s \<or>
      (\<exists>g. gScore s cur = Some g \<and> (\<forall>old. gScore s (adj_nodeId nb) = Some old \<longrightarrow> g + adj_cost nb < old))"
    by (auto simp: relax_def Let_def split: option.splits)
next
  assume "gScore s cur = None"
  then show "relax nodeMap endNode cur nb s = s" by (simp add: relax_def)
next
  fix g old
  assume "gScore s cur = Some g \<and> gScore s (adj_nodeId nb) = Some old \<and> \<not> g + adj_cost nb < old"
  then show "relax nodeMap endNode cur nb s = s" by (simp add: relax_def)
next
  fix g
  assume a: "gScore s cur = Some g \<and> gScore s (adj_nodeId nb) = None"
  then show "gScore (relax nodeMap endNode cur nb s) (adj_nodeId nb) = Some (g + adj_cost nb)"
    by (simp add: relax_def Let_def split: option.splits)
  from a show "cameFrom (relax nodeMap endNode cur nb s) (adj_nodeId nb) = Some cur"
    by (simp add: relax_def Let_def split: option.splits)
next
  assume a: "startNodeId e = endNodeId e \<and> distance e = 0"
  show "relax nodeMap endNode (startNodeId e) (adjEntryOf e) s = s"
  proof (cases "gScore s (startNodeId e)")
    case None
    then show ?thesis by (simp add: relax_def)
  next
    case (Some g)
    with a show ?thesis by (simp add: relax_def adjEntryOf_def)
  qed
next
  assume "map_of adjacency cur = None"
  then show "expand nodeMap adjacency endNode cur s = s"
    by (simp add: expand_def neighborsOf_def)
next
  show "recorded (initialState st)" by (rule recorded_initial)
next
  assume "recorded s"
  then show "recorded (relax nodeMap endNode cur nb s)" by (rule recorded_relax)
next
  assume "recorded s \<and> gScore s cur \<noteq> None"
  then have "cur \<in> dom (distanceFrom s)" by (simp add: recorded_def domIff)
  then show "distanceFrom s cur \<noteq> None" by (simp add: domIff)
next
  show "astar nodeMap adjacency endNode (initialState st) = Some None \<or>
    (\<exists>s' u rest g d. recorded s' \<and> queuePop (openSet s') = Some (u, rest) \<and> nodeId u = pn_id endNode \<and>
       gScore s' (pn_id endNode) = Some g \<and> distanceFrom s' (pn_id endNode) = Some d \<and>
       astar nodeMap adjacency endNode (initialState st) = finish nodeMap endNode (s'\<lparr>openSet := rest\<rparr>))"
    by (rule recorded_search)
qed

theorem relaxation_guard_witness:
  "gScore (relax Map.empty (selectNode nodeC) ''b'' entryBC (initialState (selectNode nodeB))) ''c'' = Some 5 \<and>
   cameFrom (relax Map.empty (selectNode nodeC) ''b'' entryBC (initialState (selectNode nodeB))) ''c'' = Some ''b'' \<and>
   relax Map.empty (selectNode nodeC) ''c'' entryBC (initialState (selectNode nodeB)) = initialState (selectNode nodeB) \<and>
   relax Map.empty (selectNode nodeC) ''b'' (adjEntryOf loopEdge) (initialState (selectNode nodeB))
     = initialState (selectNode nodeB) \<and>
   expand Map.empty [] (selectNode nodeC) ''b'' (initialState (selectNode nodeB)) = initialState (selectNode nodeB) \<and>
   recorded (relax Map.empty (selectNode nodeC) ''b'' entryBC (initialState (selectNode nodeB))) \<and>
   distanceFrom (initialState (selectNode nodeB)) ''b'' \<noteq> None"
proof -
  note g = relaxation_guard[of Map.empty "selectNode nodeC" "''b''" entryBC "initialState (selectNode nodeB)"
      loopEdge "[]" "selectNode nodeB"]
  note g' = relaxation_guard[of Map.empty "selectNode nodeC" "''c''" entryBC "initialState (selectNode nodeB)"
      loopEdge "[]" "selectNode nodeB"]
  have r: "recorded (relax Map.empty (selectNode nodeC) ''b'' entryBC (initialState (selectNode nodeB)))"
    using g by blast
  have d: "distanceFrom (initialState (selectNode nodeB)) ''b'' \<noteq> None"
    using g by (simp add: initialState_def selectNode_def nodeB_def)
  show ?thesis
    using g g' r d
    by (simp add: initialState_def selectNode_def nodeB_def entryBC_def loopEdge_def)
qed


subsection \<open>Failures\<close>

lemma neighbors_edgeRel:
  assumes "x \<in> adj_nodeId ` set (neighborsOf (buildAdjacencyList edges) k)"
  shows "(k, x) \<in> edgeRel edges"
  using assms by (auto simp: neighborsOf_buildAdjacencyList adjEntryOf_def edgeRel_def)

lemma astar_unreachable:
  assumes inv: "\<forall>q \<in> set (openSet s). (s0, nodeId q) \<in> (edgeRel edges)\<^sup>*"
    and unreach: "(s0, pn_id en) \<notin> (edgeRel edges)\<^sup>*"
  shows "astar nm (buildAdjacencyList edges) en s = Some None"
proof -
  let ?I = "\<lambda>s::AStar. \<forall>q \<in> set (openSet s). (s0, nodeId q) \<in> (edgeRel edges)\<^sup>*"
  have "astar nm (buildAdjacencyList edges) en s = Some None \<or>
         (\<exists>s' u rest. ?I s' \<and> queuePop (openSet s') = Some (u, rest) \<and> nodeId u = pn_id en \<and>
             astar nm (buildAdjacencyList edges) en s = finish nm en (s'\<lparr>openSet := rest\<rparr>))"
  proof (rule astar_rule[where I = ?I])
    show "?I s" by (rule inv)
  next
    fix s :: AStar and u rest
    assume "?I s" "queuePop (openSet s) = Some (u, rest)"
    then show "?I (s\<lparr>openSet := rest\<rparr>)"
      using queuePop_Some[of "openSet s" u rest] set_remove1_subset[of u "openSet s"] by auto
  next
    fix s :: AStar and u rest
    assume I: "?I s" and p: "queuePop (openSet s) = Some (u, rest)"
    let ?s1 = "s\<lparr>openSet := rest, visited := insert (nodeId u) (visited s)\<rparr>"
    from queuePop_Some[OF p] have u: "u \<in> set (openSet s)" and r: "set rest \<subseteq> set (openSet s)"
      using set_remove1_subset[of u "openSet s"] by auto
    from I u have ru: "(s0, nodeId u) \<in> (edgeRel edges)\<^sup>*" by blast
    show "?I (expand nm (buildAdjacencyList edges) en (nodeId u) ?s1)"
    proof
      fix q
      assume "q \<in> set (openSet (expand nm (buildAdjacencyList edges) en (nodeId u) ?s1))"
      then have "nodeId q \<in> adj_nodeId ` set (neighborsOf (buildAdjacencyList edges) (nodeId u)) \<union> nodeId ` set rest"
        using fold_relax_openSet[of nm en "nodeId u" "neighborsOf (buildAdjacencyList edges) (nodeId u)" ?s1]
        by (auto simp: expand_def)
      then show "(s0, nodeId q) \<in> (edgeRel edges)\<^sup>*"
      proof
        assume "nodeId q \<in> adj_nodeId ` set (neighborsOf (buildAdjacencyList edges) (nodeId u))"
        then have "(nodeId u, nodeId q) \<in> edgeRel edges" by (rule neighbors_edgeRel)
        with ru show ?thesis by (rule rtrancl_into_rtrancl)
      next
        assume "nodeId q \<in> nodeId ` set rest"
        with r I show ?thesis by auto
      qed
    qed
  qed
  then show ?thesis
  proof
    assume "\<exists>s' u rest. ?I s' \<and> queuePop (openSet s') = Some (u, rest) \<and> nodeId u = pn_id en \<and>
             astar nm (buildAdjacencyList edges) en s = finish nm en (s'\<lparr>openSet := rest\<rparr>)"
    then obtain s' u rest where "?I s'" "queuePop (openSet s') = Some (u, rest)" "nodeId u = pn_id en"
      by blast
    then have "(s0, pn_id en) \<in> (edgeRel edges)\<^sup>*"
      using queuePop_Some[of "openSet s'" u rest] by auto
    with unreach show ?thesis by contradiction
  qed
qed

text \<open>
  Claim C5, as the code has it. \<open>findPath\<close> returns (it is a total function) and yields
  \<open>null\<close> when an endpoint has no node within the largest snap radius, and it yields the
  same \<open>null\<close> when both endpoints snap but the snapped end node cannot be reached from
  the snapped start node along stored edges, so that the search is exhausted.
\<close>

theorem failures_return_null:
  "(findNearestNode db startLat startLng = None \<or> findNearestNode db endLat endLng = None
      \<longrightarrow> findPath db startLat startLng endLat endLng = Some None) \<and>
   (\<forall>a b. findNearestNode db startLat startLng = Some a \<and> findNearestNode db endLat endLng = Some b \<and>
           (pn_id a, pn_id b) \<notin> (edgeRel (graphEdge db))\<^sup>*
      \<longrightarrow> findPath db startLat startLng endLat endLng = Some None)"
proof (intro conjI allI impI)
  assume "findNearestNode db startLat startLng = None \<or> findNearestNode db endLat endLng = None"
  then show "findPath db startLat startLng endLat endLng = Some None"
    by (auto simp: findPath_def split: option.splits)
next
  fix a b
  assume h: "findNearestNode db startLat startLng = Some a \<and> findNearestNode db endLat endLng = Some b \<and>
           (pn_id a, pn_id b) \<notin> (edgeRel (graphEdge db))\<^sup>*"
  have "astar (buildNodeMap (map selectNode (graphNode db))) (buildAdjacencyList (graphEdge db)) b (initialState a)
          = Some None"
    by (rule astar_unreachable[where ?s0.0 = "pn_id a"]) (use h in \<open>simp_all add: initialState_def\<close>)
  with h show "findPath db startLat startLng endLat endLng = Some None"
    by (simp add: findPath_def Let_def)
qed

lemma findNearestNode_noNodes: "findNearestNode noNodes la lo = None"
  by (simp add: findNearestNode_def searchRadii_def nodesInBox_def noNodes_def)

lemma findNearestNode_apartNodes:
  "findNearestNode apartNodes 0 0 = Some (selectNode nodeB)"
  "findNearestNode apartNodes 0 1 = Some (selectNode nodeFar)"
  by (simp_all add: findNearestNode_def searchRadii_def nodesInBox_def apartNodes_def nodeB_def nodeFar_def
      selectNode_def Let_def)

theorem failures_return_null_witness:
  "findPath noNodes 0 0 0 1 = Some None \<and> findPath apartNodes 0 0 0 1 = Some None"
proof -
  have "(pn_id (selectNode nodeB), pn_id (selectNode nodeFar)) \<notin> (edgeRel (graphEdge apartNodes))\<^sup>*"
    by (simp add: edgeRel_def apartNodes_def selectNode_def nodeB_def nodeFar_def)
  then have "findPath apartNodes 0 0 0 1 = Some None"
    using failures_return_null[of apartNodes 0 0 0 1] findNearestNode_apartNodes by simp
  moreover have "findPath noNodes 0 0 0 1 = Some None"
    using failures_return_null[of noNodes 0 0 0 1] findNearestNode_noNodes by simp
  ultimately show ?thesis by simp
qed

text \<open>The claim as stated fails: a graph without nodes (no node to snap to) and a graph
  of two unconnected nodes (search exhausted) give the same return value.\<close>

theorem failures_not_distinct:
  "findNearestNode noNodes 0 0 = None \<and>
   findNearestNode apartNodes 0 0 = Some (selectNode nodeB) \<and>
   findNearestNode apartNodes 0 1 = Some (selectNode nodeFar) \<and>
   findPath noNodes 0 0 0 1 = Some None \<and>
   findPath apartNodes 0 0 0 1 = Some None"
proof -
  have g: "graphNode apartNodes = [nodeB, nodeFar]" "graphEdge apartNodes = []"
    by (simp_all add: apartNodes_def)
  have "findPath apartNodes 0 0 0 1 = Some None"
    by (simp add: findPath_def findNearestNode_apartNodes g Let_def initialState_def queuePop_def
        selectNode_def nodeB_def nodeFar_def astar.simps expand_def neighborsOf_def buildAdjacencyList_def)
  then show ?thesis
    by (simp add: findNearestNode_noNodes findNearestNode_apartNodes findPath_def)
qed

subsection \<open>Number of path points\<close>

lemma reconstruct_length:
  assumes "reconstruct nm cf nid acc = Some p"
  shows "length acc \<le> length p"
  using assms
proof (induction rule: reconstruct.raw_induct)
  case (1 f nm cf nid acc p)
  show ?case
  proof (cases nid)
    case None
    with "1.hyps" show ?thesis by simp
  next
    case (Some n)
    show ?thesis
    proof (cases "n = []")
      case True
      with "1.hyps" Some show ?thesis by simp
    next
      case False
      let ?acc = "case nm n of None \<Rightarrow> acc
            | Some node \<Rightarrow> \<lparr>pt_lat = pn_latitude node, pt_lng = pn_longitude node\<rparr> # acc"
      from "1.hyps" Some False have l: "f nm cf (cf n) ?acc = Some p"
        by simp
      from "1.prems" Some False have g: "reconstruct nm cf (cf n) ?acc = Some p"
        by (subst (asm) reconstruct.simps) simp
      from "1.IH"[OF l g] show ?thesis by (simp split: option.splits)
    qed
  qed
qed (rule assms)

lemma dom_buildNodeMap_aux:
  "dom (fold (\<lambda>node m. m(pn_id node \<mapsto> node)) ns m0) = dom m0 \<union> pn_id ` set ns"
  by (induction ns arbitrary: m0) auto

lemma dom_buildNodeMap: "dom (buildNodeMap ns) = pn_id ` set ns"
  by (simp add: buildNodeMap_def dom_buildNodeMap_aux)

lemma searchLoop_in_db:
  assumes "searchLoop db la lo radii = Some n"
  shows "n \<in> selectNode ` set (graphNode db)"
proof -
  from searchLoop_Some[OF assms] obtain r where "n \<in> set (nodesInBox db la lo r)" by blast
  then show ?thesis by (auto simp: nodesInBox_def)
qed

lemma findNearestNode_in_db:
  "findNearestNode db la lo = Some n \<Longrightarrow> n \<in> selectNode ` set (graphNode db)"
  unfolding findNearestNode_def by (rule searchLoop_in_db)

lemma linked_relax:
  assumes "linked nm s0 s" and "cur \<in> dom nm"
  shows "linked nm s0 (relax nm en cur nb s)"
  using assms
  by (auto simp: linked_def relax_def Let_def queuePush_def ran_def split: option.splits if_splits)

lemma linked_fold_relax:
  assumes "linked nm s0 s" and "cur \<in> dom nm"
  shows "linked nm s0 (fold (relax nm en cur) nbs s)"
  using assms by (induction nbs arbitrary: s) (simp_all add: linked_relax)

lemma finish_two_points:
  assumes l: "linked nm s0 s" and u: "u \<in> set (openSet s)" and e: "nodeId u = pn_id en"
    and ne: "pn_id en \<noteq> s0" and ids: "[] \<notin> dom nm"
    and f: "finish nm en (s\<lparr>openSet := rest\<rparr>) = Some (Some r)"
  shows "2 \<le> length (path r)"
proof -
  from l u have "nodeId u \<in> dom nm \<and> (nodeId u = s0 \<or> nodeId u \<in> dom (cameFrom s))"
    by (simp add: linked_def)
  with e ne obtain p where en: "pn_id en \<in> dom nm" and cf: "cameFrom s (pn_id en) = Some p"
    by (auto simp: dom_def)
  from l cf have p: "p \<in> dom nm" by (auto simp: linked_def ran_def)
  from en obtain ne' where ne': "nm (pn_id en) = Some ne'" by blast
  from p obtain np where np: "nm p = Some np" by blast
  from en ids have e0: "pn_id en \<noteq> []" by auto
  from p ids have p0: "p \<noteq> []" by auto
  let ?c1 = "\<lparr>pt_lat = pn_latitude ne', pt_lng = pn_longitude ne'\<rparr>"
  let ?c2 = "\<lparr>pt_lat = pn_latitude np, pt_lng = pn_longitude np\<rparr>"
  have "reconstruct nm (cameFrom s) (Some (pn_id en)) [] = reconstruct nm (cameFrom s) (Some p) [?c1]"
    by (subst reconstruct.simps) (simp add: e0 ne' cf)
  also have "\<dots> = reconstruct nm (cameFrom s) (cameFrom s p) [?c2, ?c1]"
    by (subst reconstruct.simps) (simp add: p0 np)
  finally have r: "reconstruct nm (cameFrom s) (Some (pn_id en)) [] = reconstruct nm (cameFrom s) (cameFrom s p) [?c2, ?c1]" .
  from f obtain pth where "reconstruct nm (cameFrom s) (Some (pn_id en)) [] = Some pth" and "path r = pth"
    by (auto simp: finish_def Let_def split: option.splits)
  with r reconstruct_length[of nm "cameFrom s" "cameFrom s p" "[?c2, ?c1]" pth] show ?thesis by simp
qed

lemma astar_two_points:
  assumes l: "linked nm s0 s" and ne: "pn_id en \<noteq> s0" and ids: "[] \<notin> dom nm"
    and f: "astar nm adj en s = Some (Some r)"
  shows "2 \<le> length (path r)"
proof -
  have "astar nm adj en s = Some None \<or>
         (\<exists>s' u rest. linked nm s0 s' \<and> queuePop (openSet s') = Some (u, rest) \<and> nodeId u = pn_id en \<and>
             astar nm adj en s = finish nm en (s'\<lparr>openSet := rest\<rparr>))"
  proof (rule astar_rule[where I = "linked nm s0"])
    show "linked nm s0 s" by (rule l)
  next
    fix s :: AStar and u rest
    assume "linked nm s0 s" "queuePop (openSet s) = Some (u, rest)"
    then show "linked nm s0 (s\<lparr>openSet := rest\<rparr>)"
      using queuePop_Some[of "openSet s" u rest] set_remove1_subset[of u "openSet s"]
      by (auto simp: linked_def)
  next
    fix s :: AStar and u rest
    assume I: "linked nm s0 s" and p: "queuePop (openSet s) = Some (u, rest)"
    from queuePop_Some[OF p] have u: "u \<in> set (openSet s)" and r: "set rest \<subseteq> set (openSet s)"
      using set_remove1_subset[of u "openSet s"] by auto
    from I u have d: "nodeId u \<in> dom nm" by (auto simp: linked_def)
    have "linked nm s0 (s\<lparr>openSet := rest, visited := insert (nodeId u) (visited s)\<rparr>)"
      using I r by (auto simp: linked_def)
    then show "linked nm s0 (expand nm adj en (nodeId u) (s\<lparr>openSet := rest, visited := insert (nodeId u) (visited s)\<rparr>))"
      unfolding expand_def using d by (rule linked_fold_relax)
  qed
  with f obtain s' u rest where "linked nm s0 s'" "queuePop (openSet s') = Some (u, rest)"
    "nodeId u = pn_id en" "finish nm en (s'\<lparr>openSet := rest\<rparr>) = Some (Some r)"
    by auto
  then show ?thesis
    using finish_two_points[of nm s0 s' u en rest r] queuePop_Some[of "openSet s'" u rest] ne ids by auto
qed

lemma astar_one_point:
  assumes "pn_id en = pn_id st" and "nm (pn_id st) = Some node" and "pn_id st \<noteq> []"
  shows "astar nm adj en (initialState st) =
           Some (Some \<lparr>path = [\<lparr>pt_lat = pn_latitude node, pt_lng = pn_longitude node\<rparr>],
                       totalDistance = 0, totalCost = 0, estimatedTime = 0\<rparr>)"
  using assms
  by (subst astar.simps)
     (simp add: initialState_def queuePop_def finish_def reconstruct.simps)

text \<open>
  Claim C9, as the code has it. When node ids are non-empty strings, a successful result
  has exactly one path point if both endpoints snap to the same node, and at least two
  path points otherwise.
\<close>

theorem path_points:
  assumes "\<forall>n \<in> set (graphNode db). gn_id n \<noteq> []"
    and "findPath db startLat startLng endLat endLng = Some (Some r)"
  shows "\<exists>a b. findNearestNode db startLat startLng = Some a \<and> findNearestNode db endLat endLng = Some b \<and>
           (if pn_id a = pn_id b then length (path r) = 1 else 2 \<le> length (path r))"
proof -
  from assms(2) obtain a b where a: "findNearestNode db startLat startLng = Some a"
    and b: "findNearestNode db endLat endLng = Some b"
    by (auto simp: findPath_def split: option.splits)
  let ?nm = "buildNodeMap (map selectNode (graphNode db))"
  let ?adj = "buildAdjacencyList (graphEdge db)"
  from assms(2) a b have run: "astar ?nm ?adj b (initialState a) = Some (Some r)"
    by (simp add: findPath_def Let_def)
  have dom: "dom ?nm = gn_id ` set (graphNode db)"
    by (simp add: dom_buildNodeMap image_image selectNode_def)
  from assms(1) have ids: "[] \<notin> dom ?nm" unfolding dom by auto
  from findNearestNode_in_db[OF a] have da: "pn_id a \<in> dom ?nm"
    unfolding dom by (auto simp: selectNode_def)
  show ?thesis
  proof (cases "pn_id a = pn_id b")
    case True
    from da obtain node where n: "?nm (pn_id a) = Some node" by blast
    from da ids have "pn_id a \<noteq> []" by auto
    from astar_one_point[where en = b and st = a and nm = ?nm and node = node and adj = ?adj] True n this run
    have "length (path r) = 1" by auto
    with a b True show ?thesis by simp
  next
    case False
    have "linked ?nm (pn_id a) (initialState a)"
      using da by (simp add: linked_def initialState_def)
    from astar_two_points[OF this _ ids run] False have "2 \<le> length (path r)" by auto
    with a b False show ?thesis by simp
  qed
qed

lemma findNearestNode_joinedNodes:
  "findNearestNode joinedNodes 0 0 = Some (selectNode nodeB)"
  "findNearestNode joinedNodes 0 1 = Some (selectNode nodeFar)"
  by (simp_all add: findNearestNode_def searchRadii_def nodesInBox_def joinedNodes_def nodeB_def nodeFar_def
      selectNode_def Let_def)

lemma findPath_joinedNodes:
  "findPath joinedNodes 0 0 0 1 =
     Some (Some \<lparr>path = [\<lparr>pt_lat = 0, pt_lng = 3/1000\<rparr>, \<lparr>pt_lat = 0, pt_lng = 1\<rparr>],
                 totalDistance = 5, totalCost = 5, estimatedTime = 1/100\<rparr>)"
proof -
  have g: "graphNode joinedNodes = [nodeB, nodeFar]" "graphEdge joinedNodes = [edgeBF]"
    by (simp_all add: joinedNodes_def)
  show ?thesis
    by (simp add: findPath_def findNearestNode_joinedNodes g Let_def initialState_def queuePop_def
        selectNode_def nodeB_def nodeFar_def edgeBF_def astar.simps expand_def neighborsOf_def
        buildAdjacencyList_def buildNodeMap_def adjEntryOf_def effectivePenalty_def relax_def
        queuePush_def heuristic_same finish_def reconstruct.simps)
qed

theorem path_points_witness:
  "findNearestNode joinedNodes 0 0 = Some (selectNode nodeB) \<and>
   findNearestNode joinedNodes 0 1 = Some (selectNode nodeFar) \<and>
   findPath joinedNodes 0 0 0 1 =
     Some (Some \<lparr>path = [\<lparr>pt_lat = 0, pt_lng = 3/1000\<rparr>, \<lparr>pt_lat = 0, pt_lng = 1\<rparr>],
                 totalDistance = 5, totalCost = 5, estimatedTime = 1/100\<rparr>) \<and>
   2 \<le> length (path \<lparr>path = [\<lparr>pt_lat = 0, pt_lng = 3/1000\<rparr>, \<lparr>pt_lat = 0, pt_lng = 1\<rparr>],
                 totalDistance = 5, totalCost = 5, estimatedTime = 1/100\<rparr>)"
proof -
  let ?r = "\<lparr>path = [\<lparr>pt_lat = 0, pt_lng = 3/1000\<rparr>, \<lparr>pt_lat = 0, pt_lng = 1\<rparr>],
                 totalDistance = 5, totalCost = 5, estimatedTime = 1/100\<rparr>"
  have "\<forall>n \<in> set (graphNode joinedNodes). gn_id n \<noteq> []"
    by (simp add: joinedNodes_def nodeB_def nodeFar_def)
  from path_points[OF this findPath_joinedNodes] obtain a b where
    a: "findNearestNode joinedNodes 0 0 = Some a" and b: "findNearestNode joinedNodes 0 1 = Some b"
    and l: "if pn_id a = pn_id b then length (path ?r) = 1 else 2 \<le> length (path ?r)"
    by blast
  from a b findNearestNode_joinedNodes have "a = selectNode nodeB" "b = selectNode nodeFar"
    by simp_all
  then have "pn_id a \<noteq> pn_id b"
    by (simp add: selectNode_def nodeB_def nodeFar_def)
  with l have "2 \<le> length (path ?r)" by simp
  with findNearestNode_joinedNodes findPath_joinedNodes show ?thesis by blast
qed

text \<open>The claim as stated fails: on a graph of one node, start and end snap to that node
  and the successful result has a single path point.\<close>

theorem same_node_single_point:
  "findNearestNode oneNode 0 0 = Some (selectNode nodeB) \<and>
   findPath oneNode 0 0 0 0 =
     Some (Some \<lparr>path = [\<lparr>pt_lat = 0, pt_lng = 3/1000\<rparr>], totalDistance = 0, totalCost = 0, estimatedTime = 0\<rparr>)"
proof -
  have g: "graphNode oneNode = [nodeB]" "graphEdge oneNode = []" by (simp_all add: oneNode_def)
  have n: "findNearestNode oneNode 0 0 = Some (selectNode nodeB)"
    by (simp add: findNearestNode_def searchRadii_def nodesInBox_def oneNode_def nodeB_def
      selectNode_def Let_def)
  show ?thesis
    by (simp add: findPath_def n g Let_def initialState_def queuePop_def astar.simps
     selectNode_def nodeB_def finish_def reconstruct.simps buildNodeMap_def)
qed


subsection \<open>Optimality of the search\<close>

lemma walk_append: "walk a (w1 @ w2) b \<longleftrightarrow> (\<exists>m. walk a w1 m \<and> walk m w2 b)"
  by (induction w1 arbitrary: a) auto

lemma walkCost_simps [simp]:
  "walkCost [] = 0" "walkCost (e # w) = edgeCost e + walkCost w"
  "walkCost (w1 @ w2) = walkCost w1 + walkCost w2" "walkCost (rev w) = walkCost w"
  by (simp_all add: walkCost_def rev_map[symmetric])

lemma walkDistance_simps [simp]:
  "walkDistance [] = 0" "walkDistance (e # w) = distance e + walkDistance w"
  "walkDistance (rev w) = walkDistance w"
  by (simp_all add: walkDistance_def rev_map[symmetric])

lemma backtrack_walk: "backtrack cf s0 n rw \<Longrightarrow> walk s0 (rev rw) n"
  by (induction rw arbitrary: n) (auto simp: walk_append)

lemma backtrack_cong:
  assumes "backtrack cf s0 n rw" and "cf' n = cf n" and "\<forall>e \<in> set rw. cf' (startNodeId e) = cf (startNodeId e)"
  shows "backtrack cf' s0 n rw"
  using assms
proof (induction rw arbitrary: n)
  case Nil
  then show ?case by simp
next
  case (Cons e rw)
  then show ?case by simp
qed

lemma walk_leaves:
  assumes "walk a w b" and "a \<in> S" and "b \<notin> S"
  shows "\<exists>w1 e w2. w = w1 @ e # w2 \<and> walk a w1 (startNodeId e) \<and> startNodeId e \<in> S \<and>
            endNodeId e \<notin> S \<and> walk (endNodeId e) w2 b"
  using assms
proof (induction w arbitrary: a)
  case Nil
  then show ?case by simp
next
  case (Cons e w)
  show ?case
  proof (cases "endNodeId e \<in> S")
    case True
    with Cons.prems have "walk (endNodeId e) w b" by simp
    from Cons.IH[OF this True Cons.prems(3)] obtain w1 e' w2 where
      "w = w1 @ e' # w2" "walk (endNodeId e) w1 (startNodeId e')" "startNodeId e' \<in> S"
      "endNodeId e' \<notin> S" "walk (endNodeId e') w2 b" by blast
    with Cons.prems show ?thesis
      by (intro exI[of _ "e # w1"] exI[of _ e'] exI[of _ w2]) simp
  next
    case False
    with Cons.prems show ?thesis
      by (intro exI[of _ "[]"] exI[of _ e] exI[of _ w]) simp
  qed
qed

lemma consistent_walk:
  assumes "\<forall>e \<in> set E. h (startNodeId e) \<le> edgeCost e + h (endNodeId e)"
    and "walk a w b" and "set w \<subseteq> set E"
  shows "h a \<le> walkCost w + h b"
  using assms(2,3)
proof (induction w arbitrary: a)
  case Nil
  then show ?case by simp
next
  case (Cons e w)
  then have "h (endNodeId e) \<le> walkCost w + h b" by simp
  moreover have "h (startNodeId e) \<le> edgeCost e + h (endNodeId e)"
    using assms(1) Cons.prems by auto
  ultimately show ?case using Cons.prems by auto
qed

lemma reconstruct_backtrack:
  assumes "backtrack cf s0 n rw" and "n \<noteq> []" and "\<forall>e \<in> set rw. startNodeId e \<noteq> []"
  shows "reconstruct nm cf (Some n) acc = Some (coordsOf nm (s0 # map endNodeId (rev rw)) @ acc)"
  using assms
proof (induction rw arbitrary: n acc)
  case Nil
  then show ?case
    by (subst reconstruct.simps) (simp add: coordsOf_def reconstruct.simps split: option.splits)
next
  case (Cons e rw)
  from Cons.prems have b: "backtrack cf s0 (startNodeId e) rw" and s: "startNodeId e \<noteq> []"
    and r: "\<forall>e \<in> set rw. startNodeId e \<noteq> []" and c: "cf n = Some (startNodeId e)" and en: "endNodeId e = n"
    by simp_all
  have "reconstruct nm cf (Some n) acc =
        reconstruct nm cf (Some (startNodeId e)) (coordsOf nm [n] @ acc)"
    using Cons.prems(2) c by (subst reconstruct.simps) (simp add: coordsOf_def split: option.splits)
  also have "\<dots> = Some (coordsOf nm (s0 # map endNodeId (rev rw)) @ coordsOf nm [n] @ acc)"
    by (rule Cons.IH[OF b s r])
  finally show ?case by (simp add: coordsOf_def en)
qed

lemma relax_noop:
  assumes "gScore s cur = Some g" and "gScore s (adj_nodeId nb) = Some old" and "\<not> g + adj_cost nb < old"
  shows "relax nm en cur nb s = s"
  using assms by (simp add: relax_def)

lemma relax_update:
  assumes "gScore s cur = Some g" and "gScore s (adj_nodeId nb) = None \<or> (\<exists>old. gScore s (adj_nodeId nb) = Some old \<and> g + adj_cost nb < old)"
    and "nm (adj_nodeId nb) = Some node" and "distanceFrom s cur = Some d"
  shows "relax nm en cur nb s =
           s\<lparr>cameFrom := (cameFrom s)(adj_nodeId nb \<mapsto> cur),
             gScore := (gScore s)(adj_nodeId nb \<mapsto> g + adj_cost nb),
             distanceFrom := (distanceFrom s)(adj_nodeId nb \<mapsto> d + adj_distance nb),
             openSet := openSet s @ [\<lparr>nodeId = adj_nodeId nb, fScore = g + adj_cost nb + hOf nm en (adj_nodeId nb)\<rparr>]\<rparr>"
  using assms by (auto simp: relax_def Let_def queuePush_def hOf_def)

lemma adjEntryOf_simps [simp]:
  "adj_nodeId (adjEntryOf e) = endNodeId e" "adj_cost (adjEntryOf e) = edgeCost e"
  "adj_distance (adjEntryOf e) = distance e"
  by (simp_all add: adjEntryOf_def edgeCost_def)

lemma searchInv_relax:
  assumes inv: "searchInv nm E en s0 R s"
    and n: "n \<in> visited s" and e: "e \<in> set E" and se: "startNodeId e = n"
    and fk: "endNodeId e \<in> dom nm"
  shows "searchInv nm E en s0 (insert e R) (relax nm en n (adjEntryOf e) s)"
proof -
  let ?nb = "endNodeId e"
  let ?h = "hOf nm en"
  from inv have s0v: "s0 \<in> visited s" and env: "pn_id en \<notin> visited s" and t: "treeOK E s0 s"
    and c: "closedOpt E s0 s" and r: "relaxedOK R s" and oq: "openQueued ?h s" and qs: "queueStale ?h s"
    by (simp_all add: searchInv_def)
  from c n obtain g where g: "gScore s n = Some g"
    and gopt: "\<forall>w. walk s0 w n \<and> set w \<subseteq> set E \<longrightarrow> g \<le> walkCost w"
    unfolding closedOpt_def by blast
  from t g obtain rw where bt: "backtrack (cameFrom s) s0 n rw" and sub: "set rw \<subseteq> set E"
    and cost: "walkCost rw = g" and dist: "distanceFrom s n = Some (walkDistance rw)"
    and vis: "\<forall>e \<in> set rw. startNodeId e \<in> visited s"
    unfolding treeOK_def by blast
  show ?thesis
  proof (cases "\<exists>old. gScore s ?nb = Some old \<and> \<not> g + edgeCost e < old")
    case True
    then obtain old where old: "gScore s ?nb = Some old" "\<not> g + edgeCost e < old" by blast
    then have eq: "relax nm en n (adjEntryOf e) s = s"
      using g by (intro relax_noop[where g = g and old = old]) simp_all
    have "relaxedOK (insert e R) s"
      using r n se g old by (auto simp: relaxedOK_def)
    then show ?thesis unfolding eq using inv by (simp add: searchInv_def)
  next
    case False
    then have upd: "gScore s ?nb = None \<or> (\<exists>old. gScore s ?nb = Some old \<and> g + edgeCost e < old)"
      by (cases "gScore s ?nb") auto
    have nbv: "?nb \<notin> visited s"
    proof
      assume "?nb \<in> visited s"
      with c obtain old where o: "gScore s ?nb = Some old"
        and oo: "\<forall>w. walk s0 w ?nb \<and> set w \<subseteq> set E \<longrightarrow> old \<le> walkCost w"
        unfolding closedOpt_def by blast
      have "walk s0 (rev rw @ [e]) ?nb"
        using backtrack_walk[OF bt] se by (simp add: walk_append)
      moreover have "set (rev rw @ [e]) \<subseteq> set E" using sub e by simp
      ultimately have "old \<le> walkCost (rev rw @ [e])" using oo by blast
      then have "old \<le> g + edgeCost e" using cost by simp
      with o False show False by auto
    qed
    with n have nn: "n \<noteq> ?nb" by auto
    from fk obtain node where node: "nm ?nb = Some node" by blast
    let ?s' = "s\<lparr>cameFrom := (cameFrom s)(?nb \<mapsto> n),
             gScore := (gScore s)(?nb \<mapsto> g + edgeCost e),
             distanceFrom := (distanceFrom s)(?nb \<mapsto> walkDistance rw + distance e),
             openSet := openSet s @ [\<lparr>nodeId = ?nb, fScore = g + edgeCost e + ?h ?nb\<rparr>]\<rparr>"
    have eq: "relax nm en n (adjEntryOf e) s = ?s'"
      using relax_update[where s = s and cur = n and g = g and nb = "adjEntryOf e" and nm = nm
          and node = node and d = "walkDistance rw" and en = en] g upd node dist
      by simp
    have t': "treeOK E s0 ?s'"
      unfolding treeOK_def
    proof (intro allI impI)
      fix m gm
      assume gm: "gScore ?s' m = Some gm"
      show "\<exists>rw. backtrack (cameFrom ?s') s0 m rw \<and> set rw \<subseteq> set E \<and> walkCost rw = gm \<and>
              distanceFrom ?s' m = Some (walkDistance rw) \<and>
              (\<forall>e \<in> set rw. startNodeId e \<in> visited ?s')"
      proof (cases "m = ?nb")
        case True
        have "backtrack (cameFrom ?s') s0 n rw"
          using bt nn vis nbv by (intro backtrack_cong[OF bt]) auto
        then have "backtrack (cameFrom ?s') s0 ?nb (e # rw)"
          using se by simp
        moreover have "set (e # rw) \<subseteq> set E" using sub e by simp
        moreover have "walkCost (e # rw) = gm" using gm True cost by simp
        moreover have "distanceFrom ?s' m = Some (walkDistance (e # rw))" using True by simp
        moreover have "\<forall>x \<in> set (e # rw). startNodeId x \<in> visited ?s'" using vis n se by simp
        ultimately show ?thesis using True by blast
      next
        case False
        with gm have "gScore s m = Some gm" by simp
        with t obtain rwm where m: "backtrack (cameFrom s) s0 m rwm" "set rwm \<subseteq> set E" "walkCost rwm = gm"
          "distanceFrom s m = Some (walkDistance rwm)" "\<forall>e \<in> set rwm. startNodeId e \<in> visited s"
          unfolding treeOK_def by blast
        have "backtrack (cameFrom ?s') s0 m rwm"
          using False m(5) nbv by (intro backtrack_cong[OF m(1)]) auto
        with m False show ?thesis by (intro exI[of _ rwm]) simp
      qed
    qed
    have c': "closedOpt E s0 ?s'"
      using c nbv unfolding closedOpt_def by (auto simp: fun_upd_def)
    have r': "relaxedOK (insert e R) ?s'"
      unfolding relaxedOK_def
    proof
      fix x
      assume x: "x \<in> insert e R"
      show "startNodeId x \<in> visited ?s' \<and>
        (\<exists>g gn. gScore ?s' (startNodeId x) = Some g \<and> gScore ?s' (endNodeId x) = Some gn \<and>
                 gn \<le> g + edgeCost x)"
      proof (cases "x = e")
        case True
        then show ?thesis using n se g nn by simp
      next
        case False
        with x r obtain gx gn where xx: "startNodeId x \<in> visited s" "gScore s (startNodeId x) = Some gx"
          "gScore s (endNodeId x) = Some gn" "gn \<le> gx + edgeCost x"
          unfolding relaxedOK_def by blast
        from xx(1) nbv have sx: "startNodeId x \<noteq> ?nb" by auto
        show ?thesis
        proof (cases "endNodeId x = ?nb")
          case True
          with xx(3) upd have "g + edgeCost e < gn" by auto
          with xx sx True show ?thesis by simp
        next
          case False
          with xx sx show ?thesis by simp
        qed
      qed
    qed
    have oq': "openQueued ?h ?s'"
      unfolding openQueued_def
    proof (intro allI impI)
      fix m gm
      assume a: "gScore ?s' m = Some gm \<and> m \<notin> visited ?s'"
      show "\<exists>q \<in> set (openSet ?s'). nodeId q = m \<and> fScore q \<le> gm + ?h m"
      proof (cases "m = ?nb")
        case True
        with a show ?thesis by simp
      next
        case False
        with a have "gScore s m = Some gm \<and> m \<notin> visited s" by simp
        with oq obtain q where "q \<in> set (openSet s)" "nodeId q = m" "fScore q \<le> gm + ?h m"
          unfolding openQueued_def by blast
        then show ?thesis by auto
      qed
    qed
    have qs': "queueStale ?h ?s'"
      unfolding queueStale_def
    proof
      fix q
      assume "q \<in> set (openSet ?s')"
      then consider "q \<in> set (openSet s)" | "q = \<lparr>nodeId = ?nb, fScore = g + edgeCost e + ?h ?nb\<rparr>"
        by auto
      then show "\<exists>g. gScore ?s' (nodeId q) = Some g \<and> g + ?h (nodeId q) \<le> fScore q"
      proof cases
        case 1
        with qs obtain gq where gq: "gScore s (nodeId q) = Some gq" "gq + ?h (nodeId q) \<le> fScore q"
          unfolding queueStale_def by blast
        show ?thesis
        proof (cases "nodeId q = ?nb")
          case True
          with gq upd have "g + edgeCost e < gq" by auto
          with gq True show ?thesis by simp
        next
          case False
          with gq show ?thesis by simp
        qed
      next
        case 2
        then show ?thesis by simp
      qed
    qed
    show ?thesis
      unfolding eq searchInv_def using s0v env t' c' r' oq' qs' by simp
  qed
qed

lemma minItem_least: "\<forall>x \<in> set (m # xs). fScore (minItem m xs) \<le> fScore x"
proof (induction xs arbitrary: m)
  case Nil
  then show ?case by simp
next
  case (Cons y ys)
  show ?case
  proof (cases "fScore y < fScore m")
    case True
    with Cons[of y] show ?thesis by fastforce
  next
    case False
    with Cons[of m] show ?thesis by fastforce
  qed
qed

lemma queuePop_least:
  assumes "queuePop q = Some (m, rest)" and "x \<in> set q"
  shows "fScore m \<le> fScore x"
proof (cases q)
  case Nil
  with assms show ?thesis by simp
next
  case (Cons y ys)
  with assms(1) have "m = minItem y ys" by (simp add: queuePop_def Let_def)
  with minItem_least[of y ys] assms(2) Cons show ?thesis by auto
qed

lemma pop_optimal:
  assumes inv: "loopInv nm E en s0 s" and cons: "consistent nm E en"
    and pop: "queuePop (openSet s) = Some (u, rest)" and nv: "nodeId u \<notin> visited s"
  shows "\<exists>g. gScore s (nodeId u) = Some g \<and>
             (\<forall>w. walk s0 w (nodeId u) \<and> set w \<subseteq> set E \<longrightarrow> g \<le> walkCost w)"
proof -
  let ?h = "hOf nm en"
  let ?R = "{e \<in> set E. startNodeId e \<in> visited s}"
  from inv have s0v: "s0 \<in> visited s" and c: "closedOpt E s0 s" and r: "relaxedOK ?R s"
    and oq: "openQueued ?h s" and qs: "queueStale ?h s"
    by (simp_all add: loopInv_def searchInv_def)
  from queuePop_Some[OF pop] have uq: "u \<in> set (openSet s)" by simp
  with qs obtain g where g: "gScore s (nodeId u) = Some g" and gf: "g + ?h (nodeId u) \<le> fScore u"
    unfolding queueStale_def by blast
  have "g \<le> walkCost w" if w: "walk s0 w (nodeId u)" "set w \<subseteq> set E" for w
  proof -
    from walk_leaves[OF w(1) s0v nv] obtain w1 x w2 where
      dec: "w = w1 @ x # w2" and w1: "walk s0 w1 (startNodeId x)" and xs: "startNodeId x \<in> visited s"
      and xe: "endNodeId x \<notin> visited s" and w2: "walk (endNodeId x) w2 (nodeId u)"
      by blast
    from dec w(2) have xE: "x \<in> set E" and w1E: "set w1 \<subseteq> set E" and w2E: "set w2 \<subseteq> set E" by auto
    from xE xs r obtain gx gy where gx: "gScore s (startNodeId x) = Some gx"
      and gy: "gScore s (endNodeId x) = Some gy" and le: "gy \<le> gx + edgeCost x"
      unfolding relaxedOK_def by blast
    from c xs gx w1 w1E have a: "gx \<le> walkCost w1"
      unfolding closedOpt_def by fastforce
    from oq gy xe obtain q where q: "q \<in> set (openSet s)" "fScore q \<le> gy + ?h (endNodeId x)"
      unfolding openQueued_def by blast
    have b: "?h (endNodeId x) \<le> walkCost w2 + ?h (nodeId u)"
      using cons w2 w2E unfolding consistent_def by (intro consistent_walk[where E = E]) auto
    from queuePop_least[OF pop q(1)] have "fScore u \<le> fScore q" .
    with gf q(2) le a b have "g + ?h (nodeId u) \<le> walkCost w1 + edgeCost x + walkCost w2 + ?h (nodeId u)"
      by linarith
    then show ?thesis by (simp add: dec)
  qed
  with g show ?thesis by blast
qed

lemma searchInv_fold:
  assumes "searchInv nm E en s0 R s" and "n \<in> visited s"
    and "set L \<subseteq> {e \<in> set E. startNodeId e = n}" and "\<forall>e \<in> set E. endNodeId e \<in> dom nm"
  shows "searchInv nm E en s0 (R \<union> set L) (fold (relax nm en n) (map adjEntryOf L) s)"
  using assms(1,2,3)
proof (induction L arbitrary: R s)
  case Nil
  then show ?case by simp
next
  case (Cons e L)
  from Cons.prems(3) have e: "e \<in> set E" "startNodeId e = n" and L: "set L \<subseteq> {e \<in> set E. startNodeId e = n}"
    by auto
  from assms(4) e(1) have fk: "endNodeId e \<in> dom nm" by blast
  have 1: "searchInv nm E en s0 (insert e R) (relax nm en n (adjEntryOf e) s)"
    by (rule searchInv_relax[OF Cons.prems(1,2) e fk])
  have 2: "n \<in> visited (relax nm en n (adjEntryOf e) s)"
    using Cons.prems(2) by (simp add: relax_visited)
  from Cons.IH[OF 1 2 L] show ?case by simp
qed

lemma loopInv_skip:
  assumes inv: "loopInv nm E en s0 s" and pop: "queuePop (openSet s) = Some (u, rest)"
    and v: "nodeId u \<in> visited s"
  shows "loopInv nm E en s0 (s\<lparr>openSet := rest\<rparr>)"
proof -
  let ?h = "hOf nm en"
  from queuePop_Some[OF pop] have rest: "rest = remove1 u (openSet s)" by simp
  from inv have oq: "openQueued ?h s" and qs: "queueStale ?h s"
    by (simp_all add: loopInv_def searchInv_def)
  have "openQueued ?h (s\<lparr>openSet := rest\<rparr>)"
    unfolding openQueued_def
  proof (intro allI impI)
    fix m g
    assume a: "gScore (s\<lparr>openSet := rest\<rparr>) m = Some g \<and> m \<notin> visited (s\<lparr>openSet := rest\<rparr>)"
    with oq obtain q where q: "q \<in> set (openSet s)" "nodeId q = m" "fScore q \<le> g + ?h m"
      unfolding openQueued_def by auto
    with a v have "q \<noteq> u" by auto
    with q(1) have "q \<in> set rest" by (simp add: rest)
    with q show "\<exists>q \<in> set (openSet (s\<lparr>openSet := rest\<rparr>)). nodeId q = m \<and> fScore q \<le> g + ?h m"
      by auto
  qed
  moreover have "queueStale ?h (s\<lparr>openSet := rest\<rparr>)"
    using qs set_remove1_subset[of u "openSet s"] unfolding queueStale_def rest by auto
  moreover have "treeOK E s0 (s\<lparr>openSet := rest\<rparr>)" "closedOpt E s0 (s\<lparr>openSet := rest\<rparr>)"
    "relaxedOK {e \<in> set E. startNodeId e \<in> visited s} (s\<lparr>openSet := rest\<rparr>)"
    using inv by (simp_all add: loopInv_def searchInv_def treeOK_def closedOpt_def relaxedOK_def)
  ultimately show ?thesis using inv by (simp add: loopInv_def searchInv_def)
qed

lemma loopInv_expand:
  assumes inv: "loopInv nm E en s0 s" and cons: "consistent nm E en"
    and fk: "\<forall>e \<in> set E. endNodeId e \<in> dom nm"
    and pop: "queuePop (openSet s) = Some (u, rest)" and ne: "nodeId u \<noteq> pn_id en"
    and nv: "nodeId u \<notin> visited s"
  shows "loopInv nm E en s0
           (expand nm (buildAdjacencyList E) en (nodeId u)
              (s\<lparr>openSet := rest, visited := insert (nodeId u) (visited s)\<rparr>))"
proof -
  let ?h = "hOf nm en"
  let ?n = "nodeId u"
  let ?R = "{e \<in> set E. startNodeId e \<in> visited s}"
  let ?s1 = "s\<lparr>openSet := rest, visited := insert ?n (visited s)\<rparr>"
  let ?L = "filter (\<lambda>e. startNodeId e = ?n) E"
  from queuePop_Some[OF pop] have rest: "rest = remove1 u (openSet s)" by simp
  from inv have s0v: "s0 \<in> visited s" and env: "pn_id en \<notin> visited s" and t: "treeOK E s0 s"
    and c: "closedOpt E s0 s" and r: "relaxedOK ?R s" and oq: "openQueued ?h s" and qs: "queueStale ?h s"
    by (simp_all add: loopInv_def searchInv_def)
  have t1: "treeOK E s0 ?s1"
    using t unfolding treeOK_def by fastforce
  have c1: "closedOpt E s0 ?s1"
    using c pop_optimal[OF inv cons pop nv] unfolding closedOpt_def by auto
  have r1: "relaxedOK ?R ?s1"
    using r unfolding relaxedOK_def by auto
  have oq1: "openQueued ?h ?s1"
    unfolding openQueued_def
  proof (intro allI impI)
    fix m g
    assume a: "gScore ?s1 m = Some g \<and> m \<notin> visited ?s1"
    with oq obtain q where q: "q \<in> set (openSet s)" "nodeId q = m" "fScore q \<le> g + ?h m"
      unfolding openQueued_def by auto
    with a have "q \<noteq> u" by auto
    with q(1) have "q \<in> set rest" by (simp add: rest)
    with q show "\<exists>q \<in> set (openSet ?s1). nodeId q = m \<and> fScore q \<le> g + ?h m"
      by auto
  qed
  have qs1: "queueStale ?h ?s1"
    using qs set_remove1_subset[of u "openSet s"] unfolding queueStale_def rest by auto
  have inv1: "searchInv nm E en s0 ?R ?s1"
    using s0v env ne t1 c1 r1 oq1 qs1 by (simp add: searchInv_def)
  have "searchInv nm E en s0 (?R \<union> set ?L) (fold (relax nm en ?n) (map adjEntryOf ?L) ?s1)"
    by (rule searchInv_fold[OF inv1 _ _ fk]) auto
  moreover have "expand nm (buildAdjacencyList E) en ?n ?s1 = fold (relax nm en ?n) (map adjEntryOf ?L) ?s1"
    by (simp add: expand_def neighborsOf_buildAdjacencyList)
  moreover have "visited (fold (relax nm en ?n) (map adjEntryOf ?L) ?s1) = insert ?n (visited s)"
    by (simp add: fold_relax_visited)
  moreover have "?R \<union> set ?L = {e \<in> set E. startNodeId e \<in> insert ?n (visited s)}"
    by auto
  ultimately show ?thesis by (simp add: loopInv_def)
qed

lemma finish_optimal:
  assumes inv: "loopInv nm E en s0 s" and cons: "consistent nm E en"
    and pop: "queuePop (openSet s) = Some (u, rest)" and ue: "nodeId u = pn_id en"
    and ids: "\<forall>e \<in> set E. startNodeId e \<noteq> []" and eid: "pn_id en \<noteq> []"
  shows "\<exists>w. walk s0 w (pn_id en) \<and> set w \<subseteq> set E \<and>
           finish nm en (s\<lparr>openSet := rest\<rparr>) =
             Some (Some \<lparr>path = coordsOf nm (s0 # map endNodeId w), totalDistance = walkDistance w,
                         totalCost = walkCost w, estimatedTime = (walkDistance w / 1000 / 30) * 60\<rparr>) \<and>
           (\<forall>w'. walk s0 w' (pn_id en) \<and> set w' \<subseteq> set E \<longrightarrow> walkCost w \<le> walkCost w')"
proof -
  from inv have env: "pn_id en \<notin> visited s" and t: "treeOK E s0 s"
    by (simp_all add: loopInv_def searchInv_def)
  from env ue have nv: "nodeId u \<notin> visited s" by simp
  from pop_optimal[OF inv cons pop nv] ue obtain g where g: "gScore s (pn_id en) = Some g"
    and opt: "\<forall>w. walk s0 w (pn_id en) \<and> set w \<subseteq> set E \<longrightarrow> g \<le> walkCost w"
    by auto
  from t g obtain rw where bt: "backtrack (cameFrom s) s0 (pn_id en) rw" and sub: "set rw \<subseteq> set E"
    and cost: "walkCost rw = g" and dist: "distanceFrom s (pn_id en) = Some (walkDistance rw)"
    unfolding treeOK_def by blast
  from ids sub have "\<forall>e \<in> set rw. startNodeId e \<noteq> []" by blast
  from reconstruct_backtrack[OF bt eid this, of nm "[]"]
  have rec: "reconstruct nm (cameFrom s) (Some (pn_id en)) [] = Some (coordsOf nm (s0 # map endNodeId (rev rw)))"
    by simp
  have "finish nm en (s\<lparr>openSet := rest\<rparr>) =
             Some (Some \<lparr>path = coordsOf nm (s0 # map endNodeId (rev rw)), totalDistance = walkDistance (rev rw),
                         totalCost = walkCost (rev rw), estimatedTime = (walkDistance (rev rw) / 1000 / 30) * 60\<rparr>)"
    by (simp add: finish_def Let_def rec g dist cost)
  moreover have "walk s0 (rev rw) (pn_id en)" by (rule backtrack_walk[OF bt])
  moreover have "set (rev rw) \<subseteq> set E" using sub by simp
  moreover have "\<forall>w'. walk s0 w' (pn_id en) \<and> set w' \<subseteq> set E \<longrightarrow> walkCost (rev rw) \<le> walkCost w'"
    using opt cost by simp
  ultimately show ?thesis by blast
qed

lemma astar_optimal_aux:
  assumes cons: "consistent nm E en" and fk: "\<forall>e \<in> set E. endNodeId e \<in> dom nm"
    and ids: "\<forall>e \<in> set E. startNodeId e \<noteq> []" and eid: "pn_id en \<noteq> []" and sid: "pn_id st \<noteq> []"
    and res: "astar nm (buildAdjacencyList E) en (initialState st) = Some (Some r)"
  shows "\<exists>w. walk (pn_id st) w (pn_id en) \<and> set w \<subseteq> set E \<and>
           r = \<lparr>path = coordsOf nm (pn_id st # map endNodeId w), totalDistance = walkDistance w,
                totalCost = walkCost w, estimatedTime = (walkDistance w / 1000 / 30) * 60\<rparr> \<and>
           (\<forall>w'. walk (pn_id st) w' (pn_id en) \<and> set w' \<subseteq> set E \<longrightarrow> walkCost w \<le> walkCost w')"
proof (cases "pn_id st = pn_id en")
  case True
  have "astar nm (buildAdjacencyList E) en (initialState st) =
          Some (Some \<lparr>path = coordsOf nm [pn_id st], totalDistance = 0, totalCost = 0, estimatedTime = 0\<rparr>)"
    using True sid
    by (subst astar.simps)
       (simp add: initialState_def queuePop_def finish_def reconstruct.simps coordsOf_def split: option.splits)
  with res have r: "r = \<lparr>path = coordsOf nm [pn_id st], totalDistance = 0, totalCost = 0, estimatedTime = 0\<rparr>"
    by simp
  have "0 \<le> walkCost w'" if "walk (pn_id st) w' (pn_id en)" "set w' \<subseteq> set E" for w'
    using consistent_walk[where h = "hOf nm en" and E = E, OF _ that] cons True
    by (simp add: consistent_def)
  then show ?thesis using r True
    by (intro exI[of _ "[]"]) simp
next
  case False
  let ?s0 = "pn_id st"
  let ?adj = "buildAdjacencyList E"
  let ?s1 = "(initialState st)\<lparr>openSet := [], visited := insert ?s0 (visited (initialState st))\<rparr>"
  let ?L = "filter (\<lambda>e. startNodeId e = ?s0) E"
  have step: "astar nm ?adj en (initialState st) = astar nm ?adj en (expand nm ?adj en ?s0 ?s1)"
    using False by (subst astar.simps) (simp add: initialState_def queuePop_def)
  have closed: "0 \<le> walkCost w" if "walk ?s0 w ?s0" "set w \<subseteq> set E" for w
    using consistent_walk[where h = "hOf nm en" and E = E, OF _ that] cons
    by (simp add: consistent_def)
  have inv1: "searchInv nm E en ?s0 {} ?s1"
    unfolding searchInv_def
  proof (intro conjI)
    show "treeOK E ?s0 ?s1"
      unfolding treeOK_def
    proof (intro allI impI)
      fix n g
      assume "gScore ?s1 n = Some g"
      then have "n = ?s0 \<and> g = 0" by (simp add: initialState_def split: if_splits)
      then show "\<exists>rw. backtrack (cameFrom ?s1) ?s0 n rw \<and> set rw \<subseteq> set E \<and> walkCost rw = g \<and>
              distanceFrom ?s1 n = Some (walkDistance rw) \<and> (\<forall>e \<in> set rw. startNodeId e \<in> visited ?s1)"
        by (intro exI[of _ "[]"]) (simp add: initialState_def)
    qed
    show "closedOpt E ?s0 ?s1"
      using closed by (simp add: closedOpt_def initialState_def)
  qed (use False in \<open>simp_all add: initialState_def relaxedOK_def openQueued_def queueStale_def\<close>)
  have "searchInv nm E en ?s0 ({} \<union> set ?L) (fold (relax nm en ?s0) (map adjEntryOf ?L) ?s1)"
    by (rule searchInv_fold[OF inv1 _ _ fk]) auto
  moreover have ex: "expand nm ?adj en ?s0 ?s1 = fold (relax nm en ?s0) (map adjEntryOf ?L) ?s1"
    by (simp add: expand_def neighborsOf_buildAdjacencyList)
  moreover have "visited (fold (relax nm en ?s0) (map adjEntryOf ?L) ?s1) = {?s0}"
    by (simp add: fold_relax_visited initialState_def)
  moreover have "{} \<union> set ?L = {e \<in> set E. startNodeId e \<in> {?s0}}" by auto
  ultimately have inv2: "loopInv nm E en ?s0 (expand nm ?adj en ?s0 ?s1)"
    by (simp add: loopInv_def)
  have "astar nm ?adj en (expand nm ?adj en ?s0 ?s1) = Some None \<or>
         (\<exists>s' u rest. loopInv nm E en ?s0 s' \<and> queuePop (openSet s') = Some (u, rest) \<and> nodeId u = pn_id en \<and>
             astar nm ?adj en (expand nm ?adj en ?s0 ?s1) = finish nm en (s'\<lparr>openSet := rest\<rparr>))"
  proof (rule astar_rule[where I = "loopInv nm E en ?s0"])
    show "loopInv nm E en ?s0 (expand nm ?adj en ?s0 ?s1)" by (rule inv2)
  next
    fix s :: AStar and u rest
    assume "loopInv nm E en ?s0 s" "queuePop (openSet s) = Some (u, rest)" "nodeId u \<in> visited s"
    then show "loopInv nm E en ?s0 (s\<lparr>openSet := rest\<rparr>)" by (rule loopInv_skip)
  next
    fix s :: AStar and u rest
    assume "loopInv nm E en ?s0 s" "queuePop (openSet s) = Some (u, rest)" "nodeId u \<noteq> pn_id en"
      "nodeId u \<notin> visited s"
    then show "loopInv nm E en ?s0 (expand nm ?adj en (nodeId u) (s\<lparr>openSet := rest, visited := insert (nodeId u) (visited s)\<rparr>))"
      by (rule loopInv_expand[OF _ cons fk])
  qed
  with res step obtain s' u rest where f: "loopInv nm E en ?s0 s'" "queuePop (openSet s') = Some (u, rest)"
    "nodeId u = pn_id en" "finish nm en (s'\<lparr>openSet := rest\<rparr>) = Some (Some r)"
    by auto
  from finish_optimal[OF f(1) cons f(2,3) ids eid] f(4) show ?thesis by auto
qed

text \<open>
  Claim C3, as the code has it. Let node ids be non-empty and every edge join stored
  nodes; let every edge have an effective penalty of at least 1 and a distance that is
  not negative and not smaller than the decrease of the great-circle distance to the
  snapped end node along the edge (the triangle inequality gives this when an edge is at
  least as long as the great-circle distance between its endpoints). If \<open>findPath\<close>
  returns a result, then there is a walk from the snapped start node to the snapped end
  node whose nodes are the returned path, whose penalized cost is \<open>totalCost\<close> and whose raw
  distance is \<open>totalDistance\<close>, and no walk between the two nodes has a smaller penalized
  cost.
\<close>

theorem astar_optimal:
  assumes ids: "\<forall>n \<in> set (graphNode db). gn_id n \<noteq> []"
    and fk: "\<forall>e \<in> set (graphEdge db). startNodeId e \<in> gn_id ` set (graphNode db) \<and>
                                       endNodeId e \<in> gn_id ` set (graphNode db)"
    and pen: "\<forall>e \<in> set (graphEdge db). 1 \<le> effectivePenalty e"
    and snapa: "findNearestNode db startLat startLng = Some a"
    and snapb: "findNearestNode db endLat endLng = Some b"
    and dist: "\<forall>e \<in> set (graphEdge db). 0 \<le> distance e \<and>
                 straightLineTo db b (startNodeId e) \<le> distance e + straightLineTo db b (endNodeId e)"
    and res: "findPath db startLat startLng endLat endLng = Some (Some r)"
  shows "\<exists>w. walk (pn_id a) w (pn_id b) \<and> set w \<subseteq> set (graphEdge db) \<and>
             totalCost r = walkCost w \<and> totalDistance r = walkDistance w \<and>
             path r = coordsOf (buildNodeMap (map selectNode (graphNode db))) (pn_id a # map endNodeId w) \<and>
             (\<forall>w'. walk (pn_id a) w' (pn_id b) \<and> set w' \<subseteq> set (graphEdge db) \<longrightarrow> totalCost r \<le> walkCost w')"
proof -
  let ?nm = "buildNodeMap (map selectNode (graphNode db))"
  let ?E = "graphEdge db"
  have dom: "dom ?nm = gn_id ` set (graphNode db)"
    by (simp add: dom_buildNodeMap image_image selectNode_def)
  have cons: "consistent ?nm ?E b"
    unfolding consistent_def
  proof
    fix e
    assume e: "e \<in> set ?E"
    with dist have d: "0 \<le> distance e"
      and h: "hOf ?nm b (startNodeId e) \<le> distance e + hOf ?nm b (endNodeId e)"
      by (auto simp: straightLineTo_def)
    from pen e have "1 \<le> effectivePenalty e" by blast
    then have "distance e * 1 \<le> distance e * effectivePenalty e" using d by (rule mult_left_mono)
    with h show "hOf ?nm b (startNodeId e) \<le> edgeCost e + hOf ?nm b (endNodeId e)"
      by (simp add: edgeCost_def)
  qed
  have fk': "\<forall>e \<in> set ?E. endNodeId e \<in> dom ?nm" using fk unfolding dom by blast
  have ids': "\<forall>e \<in> set ?E. startNodeId e \<noteq> []" using fk ids by force
  from findNearestNode_in_db[OF snapa] ids have sid: "pn_id a \<noteq> []" by (auto simp: selectNode_def)
  from findNearestNode_in_db[OF snapb] ids have eid: "pn_id b \<noteq> []" by (auto simp: selectNode_def)
  from res snapa snapb have run: "astar ?nm (buildAdjacencyList ?E) b (initialState a) = Some (Some r)"
    by (simp add: findPath_def Let_def)
  from astar_optimal_aux[OF cons fk' ids' eid sid run] show ?thesis by auto
qed

lemma lineGraph_simps:
  "graphNode lineGraph = [lineP, lineQ, lineR]" "graphEdge lineGraph = [linePQ, lineQR, linePR]"
  by (simp_all add: lineGraph_def)

lemma findNearestNode_lineGraph:
  "findNearestNode lineGraph 0 0 = Some (selectNode lineP)"
  "findNearestNode lineGraph 0 (1/50) = Some (selectNode lineR)"
  by (simp_all add: findNearestNode_def searchRadii_def nodesInBox_def lineGraph_def lineP_def lineQ_def lineR_def
      selectNode_def Let_def)

lemma heuristic_line:
  "heuristic 0 (1/100) 0 (1/50) < 1500" "0 < heuristic 0 (1/100) 0 (1/50)"
  "heuristic 0 0 0 (1/50) < 3000" "heuristic 0 (1/50) 0 (1/50) = 0"
  using pi_less_4 pi_gt_zero
  by (simp_all add: heuristic_equator heuristic_same earthRadius_def)

lemma findPath_lineGraph:
  "findPath lineGraph 0 0 0 (1/50) =
     Some (Some \<lparr>path = [\<lparr>pt_lat = 0, pt_lng = 0\<rparr>, \<lparr>pt_lat = 0, pt_lng = 1/100\<rparr>, \<lparr>pt_lat = 0, pt_lng = 1/50\<rparr>],
                 totalDistance = 3000, totalCost = 3000, estimatedTime = 6\<rparr>)"
  using heuristic_line
  by (simp add: findPath_def findNearestNode_lineGraph lineGraph_simps Let_def initialState_def queuePop_def
        selectNode_def lineP_def lineQ_def lineR_def linePQ_def lineQR_def linePR_def astar.simps expand_def
        neighborsOf_def buildAdjacencyList_def buildNodeMap_def adjEntryOf_def effectivePenalty_def relax_def
        queuePush_def finish_def reconstruct.simps)

lemma lineGraph_consistent:
  "\<forall>e \<in> set (graphEdge lineGraph). 0 \<le> distance e \<and>
     straightLineTo lineGraph (selectNode lineR) (startNodeId e)
       \<le> distance e + straightLineTo lineGraph (selectNode lineR) (endNodeId e)"
  using pi_less_4 pi_gt_zero
  by (simp add: lineGraph_simps straightLineTo_def hOf_def buildNodeMap_def selectNode_def
      lineP_def lineQ_def lineR_def linePQ_def lineQR_def linePR_def heuristic_equator heuristic_same
      earthRadius_def)

theorem astar_optimal_witness:
  "findPath lineGraph 0 0 0 (1/50) =
     Some (Some \<lparr>path = [\<lparr>pt_lat = 0, pt_lng = 0\<rparr>, \<lparr>pt_lat = 0, pt_lng = 1/100\<rparr>, \<lparr>pt_lat = 0, pt_lng = 1/50\<rparr>],
                 totalDistance = 3000, totalCost = 3000, estimatedTime = 6\<rparr>) \<and>
   (\<exists>w. walk ''p'' w ''r'' \<and> set w \<subseteq> set (graphEdge lineGraph) \<and> walkCost w = 3000 \<and> walkDistance w = 3000) \<and>
   3000 \<le> walkCost [linePR]"
proof -
  let ?r = "\<lparr>path = [\<lparr>pt_lat = 0, pt_lng = 0\<rparr>, \<lparr>pt_lat = 0, pt_lng = 1/100\<rparr>, \<lparr>pt_lat = 0, pt_lng = 1/50\<rparr>],
                 totalDistance = 3000, totalCost = 3000, estimatedTime = 6\<rparr>"
  have ids: "\<forall>n \<in> set (graphNode lineGraph). gn_id n \<noteq> []"
    by (simp add: lineGraph_simps lineP_def lineQ_def lineR_def)
  have fk: "\<forall>e \<in> set (graphEdge lineGraph). startNodeId e \<in> gn_id ` set (graphNode lineGraph) \<and>
                                       endNodeId e \<in> gn_id ` set (graphNode lineGraph)"
    by (simp add: lineGraph_simps lineP_def lineQ_def lineR_def linePQ_def lineQR_def linePR_def)
  have pen: "\<forall>e \<in> set (graphEdge lineGraph). 1 \<le> effectivePenalty e"
    by (simp add: lineGraph_simps effectivePenalty_def linePQ_def lineQR_def linePR_def)
  from astar_optimal[OF ids fk pen findNearestNode_lineGraph lineGraph_consistent findPath_lineGraph]
  obtain w where w: "walk (pn_id (selectNode lineP)) w (pn_id (selectNode lineR))"
    "set w \<subseteq> set (graphEdge lineGraph)" "totalCost ?r = walkCost w" "totalDistance ?r = walkDistance w"
    and opt: "\<forall>w'. walk (pn_id (selectNode lineP)) w' (pn_id (selectNode lineR)) \<and> set w' \<subseteq> set (graphEdge lineGraph)
                \<longrightarrow> totalCost ?r \<le> walkCost w'"
    by blast
  have "walk (pn_id (selectNode lineP)) [linePR] (pn_id (selectNode lineR)) \<and> set [linePR] \<subseteq> set (graphEdge lineGraph)"
    by (simp add: selectNode_def lineP_def lineR_def linePR_def lineGraph_simps)
  with opt have "totalCost ?r \<le> walkCost [linePR]" by blast
  moreover from w have "walk ''p'' w ''r'' \<and> set w \<subseteq> set (graphEdge lineGraph) \<and> walkCost w = 3000 \<and> walkDistance w = 3000"
    by (simp add: selectNode_def lineP_def lineR_def)
  ultimately show ?thesis using findPath_lineGraph by auto
qed

lemma findNearestNode_ringGraph:
  "findNearestNode ringGraph 0 0 = Some (selectNode sqA)"
  "findNearestNode ringGraph 0 3 = Some (selectNode sqD)"
  by (simp_all add: findNearestNode_def searchRadii_def nodesInBox_def ringGraph_def sqA_def sqB_def sqC_def sqD_def
      selectNode_def Let_def)

lemma heuristic_ring: "4900 < heuristic 0 1 0 3" "heuristic 0 3 0 3 = 0"
  using pi_ge_two
  by (simp_all add: heuristic_equator heuristic_same earthRadius_def)

text \<open>The claim as stated fails. Four nodes on the equator, one degree apart, joined by
  roads of 100 m (penalty 1) and a direct road of 1000 m with penalty 5 between the first
  and the last: every effective penalty is at least 1, the walk over the three short roads
  costs 300, and \<open>findPath\<close> returns the direct road at cost 5000, because the heuristic of
  the second node (more than 100 km) exceeds the cost of the direct road.\<close>

theorem cheaper_detour_missed:
  "map effectivePenalty (graphEdge ringGraph) = [1, 1, 1, 1, 1, 1, 5, 5] \<and>
   findNearestNode ringGraph 0 0 = Some (selectNode sqA) \<and>
   findNearestNode ringGraph 0 3 = Some (selectNode sqD) \<and>
   findPath ringGraph 0 0 0 3 =
     Some (Some \<lparr>path = [\<lparr>pt_lat = 0, pt_lng = 0\<rparr>, \<lparr>pt_lat = 0, pt_lng = 3\<rparr>],
                 totalDistance = 1000, totalCost = 5000, estimatedTime = 2\<rparr>) \<and>
   walk ''A'' [road ''1'' ''A'' ''B'' 100 1, road ''3'' ''B'' ''C'' 100 1, road ''5'' ''C'' ''D'' 100 1] ''D'' \<and>
   set [road ''1'' ''A'' ''B'' 100 1, road ''3'' ''B'' ''C'' 100 1, road ''5'' ''C'' ''D'' 100 1]
     \<subseteq> set (graphEdge ringGraph) \<and>
   walkCost [road ''1'' ''A'' ''B'' 100 1, road ''3'' ''B'' ''C'' 100 1, road ''5'' ''C'' ''D'' 100 1] = 300"
proof -
  have g: "graphNode ringGraph = [sqA, sqB, sqC, sqD]"
    "graphEdge ringGraph = [road ''1'' ''A'' ''B'' 100 1, road ''2'' ''B'' ''A'' 100 1,
                   road ''3'' ''B'' ''C'' 100 1, road ''4'' ''C'' ''B'' 100 1,
                   road ''5'' ''C'' ''D'' 100 1, road ''6'' ''D'' ''C'' 100 1,
                   road ''7'' ''A'' ''D'' 1000 5, road ''8'' ''D'' ''A'' 1000 5]"
    by (simp_all add: ringGraph_def)
  have run: "findPath ringGraph 0 0 0 3 =
     Some (Some \<lparr>path = [\<lparr>pt_lat = 0, pt_lng = 0\<rparr>, \<lparr>pt_lat = 0, pt_lng = 3\<rparr>],
                 totalDistance = 1000, totalCost = 5000, estimatedTime = 2\<rparr>)"
    using heuristic_ring
    by (simp add: findPath_def findNearestNode_ringGraph g Let_def initialState_def queuePop_def
        selectNode_def sqA_def sqB_def sqC_def sqD_def road_def astar.simps expand_def
        neighborsOf_def buildAdjacencyList_def buildNodeMap_def adjEntryOf_def effectivePenalty_def relax_def
        queuePush_def finish_def reconstruct.simps)
  have rest: "map effectivePenalty (graphEdge ringGraph) = [1, 1, 1, 1, 1, 1, 5, 5]"
    "walk ''A'' [road ''1'' ''A'' ''B'' 100 1, road ''3'' ''B'' ''C'' 100 1, road ''5'' ''C'' ''D'' 100 1] ''D''"
    "set [road ''1'' ''A'' ''B'' 100 1, road ''3'' ''B'' ''C'' 100 1, road ''5'' ''C'' ''D'' 100 1]
       \<subseteq> set (graphEdge ringGraph)"
    "walkCost [road ''1'' ''A'' ''B'' 100 1, road ''3'' ''B'' ''C'' 100 1, road ''5'' ''C'' ''D'' 100 1] = 300"
    by (simp_all add: g road_def effectivePenalty_def edgeCost_def)
  show ?thesis using run rest findNearestNode_ringGraph by simp
qed


end
